theory Spec2Isabelle
  imports Complex_Main
begin

section \<open>Values, failures and tensors\<close>

text \<open>
  The embedding core (\<^verbatim>\<open>embedings.py\<close>, class \<^verbatim>\<open>OptimizedEmbeddingService\<close>) and the
  HTTP routes that call it (\<^verbatim>\<open>api.py\<close>) are modelled as pure functions. An exception is
  a value of type \<open>exn\<close> on the left of a sum. Floating-point numbers are modelled as
  real numbers, so every statement about norms is about exact arithmetic.
\<close>

datatype exn = ValueError | IndexError | TypeError | Raised string

text \<open>
  What \<^verbatim>\<open>ndarray.tolist()\<close> produces and what the routes inspect: an untagged Python
  value, a float or a list of values.
\<close>

datatype pyval = PFloat real | PList "pyval list"

text \<open>The argument of \<^verbatim>\<open>embed_sync\<close>/\<^verbatim>\<open>embed_async\<close>: \<^verbatim>\<open>Union[str, List[str]]\<close>.\<close>

datatype texts = Str string | StrList "string list"

text \<open>
  A tensor or array is represented by its nested-list form: a matrix is the list of its
  rows, a three-dimensional tensor of shape \<open>[B, S, H]\<close> is a list of \<open>B\<close> matrices with
  \<open>S\<close> rows of \<open>H\<close> entries each.
\<close>

type_synonym vector = "real list"
type_synonym matrix = "real list list"
type_synonym tensor3 = "real list list list"

record encoding =
  input_ids :: "int list list"
  attention_mask :: "int list list"

text \<open>
  The tokenizer and the encoder are loaded from the \<^verbatim>\<open>transformers\<close> library; they are
  parameters of the service. Either may raise. The tokenizer is called with
  \<^verbatim>\<open>padding=True, truncation=True, max_length=self.max_length\<close>; the encoder returns the
  last hidden state. Both are functions of their input: the encoder is in evaluation
  mode and the model is only read during inference.
\<close>

record service =
  batch_size :: int
  max_length :: int
  tokenizer :: "string list \<Rightarrow> int \<Rightarrow> exn + encoding"
  model :: "encoding \<Rightarrow> exn + tensor3"

section \<open>Pooling and normalisation\<close>

text \<open>
  \<^verbatim>\<open>attention_mask.unsqueeze(-1).expand(token_embeddings.size()).float()\<close>: every mask
  value is repeated along the hidden dimension. The library returns hidden states and a
  mask that agree in the batch and sequence dimensions; on other shapes \<^verbatim>\<open>expand\<close> raises
  or broadcasts, while the lists below are cut to the shorter one. Every statement that
  depends on the shapes assumes them (\<open>well_shaped\<close>, \<open>runtime_contract\<close>).
\<close>

definition expand_mask :: "int list list \<Rightarrow> tensor3 \<Rightarrow> tensor3" where
  "expand_mask amask token_embeddings =
     map2 (\<lambda>mrow toks. map2 (\<lambda>m tok. replicate (length tok) (real_of_int m)) mrow toks)
       amask token_embeddings"

text \<open>Elementwise product of two tensors of the same shape.\<close>

definition mul3 :: "tensor3 \<Rightarrow> tensor3 \<Rightarrow> tensor3" where
  "mul3 a b = map2 (map2 (map2 (*))) a b"

text \<open>
  \<^verbatim>\<open>torch.sum(t, 1)\<close>: the sum over the sequence dimension, one vector per text. A
  sequence without positions has no rows from which the hidden size could be read, and
  its sum is the empty vector.
\<close>

fun col_sums :: "matrix \<Rightarrow> vector" where
  "col_sums [] = []"
| "col_sums [r] = r"
| "col_sums (r # rs) = map2 (+) r (col_sums rs)"

definition sum_dim1 :: "tensor3 \<Rightarrow> matrix" where
  "sum_dim1 t = map col_sums t"

text \<open>\<^verbatim>\<open>torch.clamp(t, min=1e-9)\<close>.\<close>

definition clamp_min :: "real \<Rightarrow> matrix \<Rightarrow> matrix" where
  "clamp_min lo t = map (map (\<lambda>x. max x lo)) t"

definition mean_pooling :: "tensor3 \<Rightarrow> int list list \<Rightarrow> matrix" where
  "mean_pooling token_embeddings amask =
     (let input_mask_expanded = expand_mask amask token_embeddings;
          sum_embeddings = sum_dim1 (mul3 token_embeddings input_mask_expanded);
          sum_mask = clamp_min (1 / 10 ^ 9) (sum_dim1 input_mask_expanded)
      in map2 (map2 (/)) sum_embeddings sum_mask)"

definition l2_norm :: "vector \<Rightarrow> real" where
  "l2_norm v = sqrt (\<Sum>x\<leftarrow>v. x\<^sup>2)"

text \<open>
  \<^verbatim>\<open>torch.nn.functional.normalize(embeddings, p=2, dim=1)\<close>: every row \<open>v\<close> is divided by
  \<open>max (\<parallel>v\<parallel>\<^sub>2) eps\<close>, with the library's default \<open>eps = 1e-12\<close>.
\<close>

definition normalize_row :: "vector \<Rightarrow> vector" where
  "normalize_row v = map (\<lambda>x. x / max (l2_norm v) (1 / 10 ^ 12)) v"

definition normalize_l2 :: "matrix \<Rightarrow> matrix" where
  "normalize_l2 m = map normalize_row m"

definition embed_batch :: "service \<Rightarrow> string list \<Rightarrow> exn + matrix" where
  "embed_batch svc batch =
     (case tokenizer svc batch (max_length svc) of
        Inl e \<Rightarrow> Inl e
      | Inr encoded \<Rightarrow>
          (case model svc encoded of
             Inl e \<Rightarrow> Inl e
           | Inr last_hidden_state \<Rightarrow>
               Inr (normalize_l2 (mean_pooling last_hidden_state (attention_mask encoded)))))"

section \<open>The batch scheduler\<close>

text \<open>
  \<^verbatim>\<open>range(i, stop, step)\<close> for a positive step. A step of zero raises and a negative
  step gives the empty range; \<open>make_batches\<close> decides that before it calls \<open>py_range\<close>.
\<close>

function py_range :: "nat \<Rightarrow> nat \<Rightarrow> nat \<Rightarrow> nat list" where
  "py_range i stop step =
     (if 0 < step \<and> i < stop then i # py_range (i + step) stop step else [])"
  by pat_completeness auto
termination
  by (relation "measure (\<lambda>(i, stop, step). stop - i)") auto

declare py_range.simps [simp del]

text \<open>
  \<^verbatim>\<open>[texts[i:i + B] for i in range(0, len(texts), B)]\<close>, and the same slices taken by
  the \<^verbatim>\<open>for\<close> loop of \<^verbatim>\<open>embed_sync\<close>.
\<close>

definition make_batches :: "int \<Rightarrow> string list \<Rightarrow> exn + string list list" where
  "make_batches B ts =
     (if B = 0 then Inl ValueError
      else if B < 0 then Inr []
      else Inr (map (\<lambda>i. take (nat B) (drop i ts)) (py_range 0 (length ts) (nat B))))"

text \<open>
  \<^verbatim>\<open>np.vstack\<close>: it raises \<^verbatim>\<open>ValueError\<close> on an empty sequence of arrays and when the
  arrays differ in their number of columns.
\<close>

definition vstack :: "matrix list \<Rightarrow> exn + matrix" where
  "vstack arrays =
     (if arrays = [] then Inl ValueError
      else (case concat arrays of
              [] \<Rightarrow> Inr []
            | r # rs \<Rightarrow>
                if list_all (\<lambda>r'. length r' = length r) rs then Inr (r # rs)
                else Inl ValueError))"

definition tolist :: "matrix \<Rightarrow> pyval list" where
  "tolist arr = map (\<lambda>row. PList (map PFloat row)) arr"

text \<open>\<^verbatim>\<open>isinstance(texts, str)\<close>: the list of texts and the flag \<^verbatim>\<open>single_input\<close>.\<close>

fun as_list :: "texts \<Rightarrow> string list \<times> bool" where
  "as_list (Str s) = ([s], True)"
| "as_list (StrList ts) = (ts, False)"

text \<open>The last lines of both entry points: stack, convert, unwrap a single input.\<close>

definition finish :: "bool \<Rightarrow> matrix list \<Rightarrow> exn + pyval" where
  "finish single_input batch_results =
     (case vstack batch_results of
        Inl e \<Rightarrow> Inl e
      | Inr all_embeddings \<Rightarrow>
          (let result = tolist all_embeddings
           in if single_input
              then (case result of [] \<Rightarrow> Inl IndexError | r # _ \<Rightarrow> Inr r)
              else Inr (PList result)))"

text \<open>
  The loop of \<^verbatim>\<open>embed_sync\<close>: batches are embedded one after the other and the first
  exception leaves the loop.
\<close>

fun sync_loop :: "service \<Rightarrow> string list list \<Rightarrow> exn + matrix list" where
  "sync_loop svc [] = Inr []"
| "sync_loop svc (batch # rest) =
     (case embed_batch svc batch of
        Inl e \<Rightarrow> Inl e
      | Inr batch_embeddings \<Rightarrow>
          (case sync_loop svc rest of
             Inl e \<Rightarrow> Inl e
           | Inr all_embeddings \<Rightarrow> Inr (batch_embeddings # all_embeddings)))"

definition embed_sync :: "service \<Rightarrow> texts \<Rightarrow> exn + pyval" where
  "embed_sync svc q =
     (case as_list q of
        (ts, single_input) \<Rightarrow>
          (case make_batches (batch_size svc) ts of
             Inl e \<Rightarrow> Inl e
           | Inr batches \<Rightarrow>
               (case sync_loop svc batches of
                  Inl e \<Rightarrow> Inl e
                | Inr all_embeddings \<Rightarrow> finish single_input all_embeddings)))"

text \<open>
  \<^verbatim>\<open>asyncio.gather(*tasks)\<close> without \<^verbatim>\<open>return_exceptions\<close>: the results are returned in
  the order of the tasks, and the first exception raised, in the order in which the
  tasks complete, is propagated. The completion order is the list \<open>completion\<close> of task
  indices; a failed task that it does not mention is found by the positional pass.
\<close>

fun collect :: "(exn + 'a) list \<Rightarrow> exn + 'a list" where
  "collect [] = Inr []"
| "collect (Inl e # rest) = Inl e"
| "collect (Inr x # rest) =
     (case collect rest of Inl e \<Rightarrow> Inl e | Inr xs \<Rightarrow> Inr (x # xs))"

definition failure_at :: "(exn + 'a) list \<Rightarrow> nat \<Rightarrow> exn option" where
  "failure_at tasks i =
     (if i < length tasks then (case tasks ! i of Inl e \<Rightarrow> Some e | Inr _ \<Rightarrow> None) else None)"

definition gather :: "nat list \<Rightarrow> (exn + 'a) list \<Rightarrow> exn + 'a list" where
  "gather completion tasks =
     (case List.map_filter (failure_at tasks) completion of
        e # _ \<Rightarrow> Inl e
      | [] \<Rightarrow> collect tasks)"

definition embed_async :: "nat list \<Rightarrow> service \<Rightarrow> texts \<Rightarrow> exn + pyval" where
  "embed_async completion svc q =
     (case as_list q of
        (ts, single_input) \<Rightarrow>
          (case make_batches (batch_size svc) ts of
             Inl e \<Rightarrow> Inl e
           | Inr batches \<Rightarrow>
               (case gather completion (map (embed_batch svc) batches) of
                  Inl e \<Rightarrow> Inl e
                | Inr batch_results \<Rightarrow> finish single_input batch_results)))"

text \<open>\<^verbatim>\<open>len\<close> of a Python value.\<close>

fun py_len :: "pyval \<Rightarrow> exn + nat" where
  "py_len (PList xs) = Inr (length xs)"
| "py_len (PFloat x) = Inl TypeError"

definition get_embedding_dimension :: "service \<Rightarrow> exn + nat" where
  "get_embedding_dimension svc =
     (case embed_sync svc (Str ''test'') of
        Inl e \<Rightarrow> Inl e
      | Inr dummy_embedding \<Rightarrow> py_len dummy_embedding)"

section \<open>The HTTP routes\<close>

datatype detail = Not_initialized | Empty_query_list | Generation_error exn

datatype http_exception = HTTPException nat detail

record embedding_response =
  embeddings :: pyval
  dimension :: nat
  count :: nat

text \<open>
  \<^verbatim>\<open>POST /embed\<close>. The global \<^verbatim>\<open>embedding_service\<close> is \<open>None\<close> before start-up. Every
  exception raised inside the \<^verbatim>\<open>try\<close> block, also by \<^verbatim>\<open>embeddings[0]\<close> and \<^verbatim>\<open>len\<close>,
  becomes a response with status 500.
\<close>

definition route_embed ::
  "nat list \<Rightarrow> service option \<Rightarrow> texts \<Rightarrow> http_exception + embedding_response" where
  "route_embed completion embedding_service query =
     (case embedding_service of
        None \<Rightarrow> Inl (HTTPException 503 Not_initialized)
      | Some svc \<Rightarrow>
          (case embed_async completion svc query of
             Inl e \<Rightarrow> Inl (HTTPException 500 (Generation_error e))
           | Inr embs \<Rightarrow>
               (case embs of
                  PFloat x \<Rightarrow> Inl (HTTPException 500 (Generation_error TypeError))
                | PList [] \<Rightarrow> Inl (HTTPException 500 (Generation_error IndexError))
                | PList (PList first # rest) \<Rightarrow>
                    Inr \<lparr>embeddings = embs, dimension = length first,
                         count = length (PList first # rest)\<rparr>
                | PList (PFloat x # rest) \<Rightarrow>
                    Inr \<lparr>embeddings = embs, dimension = length (PFloat x # rest),
                         count = 1\<rparr>)))"

text \<open>\<^verbatim>\<open>POST /embed/batch\<close>: an empty list is rejected before the core is called.\<close>

definition route_embed_batch ::
  "nat list \<Rightarrow> service option \<Rightarrow> string list \<Rightarrow> http_exception + embedding_response" where
  "route_embed_batch completion embedding_service queries =
     (case embedding_service of
        None \<Rightarrow> Inl (HTTPException 503 Not_initialized)
      | Some svc \<Rightarrow>
          if queries = [] then Inl (HTTPException 400 Empty_query_list)
          else
            (case embed_async completion svc (StrList queries) of
               Inl e \<Rightarrow> Inl (HTTPException 500 (Generation_error e))
             | Inr embs \<Rightarrow>
                 (case embs of
                    PFloat x \<Rightarrow> Inl (HTTPException 500 (Generation_error TypeError))
                  | PList [] \<Rightarrow> Inl (HTTPException 500 (Generation_error IndexError))
                  | PList (first # rest) \<Rightarrow>
                      (case py_len first of
                         Inl e \<Rightarrow> Inl (HTTPException 500 (Generation_error e))
                       | Inr d \<Rightarrow>
                           Inr \<lparr>embeddings = embs, dimension = d,
                                count = length (first # rest)\<rparr>))))"

section \<open>A concrete service\<close>

text \<open>
  A small service on which the statements below are evaluated. Its tokenizer works in
  the manner of a BERT tokenizer, with one token per character: every text becomes
  \<^verbatim>\<open>[CLS]\<close> (101), its tokens and \<^verbatim>\<open>[SEP]\<close> (102), cut to \<open>max_length\<close> positions in
  all; the rows are padded with the token 0 to the longest row of the batch, and the mask
  is 1 on the real positions (the two special tokens among them) and 0 on the padding.
  Its encoder has hidden size 2: the real positions of a row carry \<open>[4, 3]\<close> or
  \<open>[3, 4]\<close>, by the parity of the sum of the row's token ids, and the padding positions
  carry \<open>[7, 7]\<close>.
\<close>

definition demo_tokenizer :: "string list \<Rightarrow> int \<Rightarrow> exn + encoding" where
  "demo_tokenizer ts L =
     (let cut = map (take (nat L - 2)) ts;
          S = foldr max (map (\<lambda>t. length t + 2) cut) 0
      in Inr \<lparr>input_ids =
                map (\<lambda>t. 101 # map (\<lambda>c. int (of_char c)) t @ 102 #
                       replicate (S - (length t + 2)) 0) cut,
              attention_mask =
                map (\<lambda>t. replicate (length t + 2) 1 @ replicate (S - (length t + 2)) 0)
                  cut\<rparr>)"

definition demo_model :: "encoding \<Rightarrow> exn + tensor3" where
  "demo_model enc =
     Inr (map (\<lambda>ids. map (\<lambda>x. if x = 0 then [7, 7]
                                else if even (sum_list ids) then [4, 3] else [3, 4]) ids)
            (input_ids enc))"

definition demo_svc :: service where
  "demo_svc =
     \<lparr>batch_size = 2, max_length = 512, tokenizer = demo_tokenizer, model = demo_model\<rparr>"

text \<open>
  A variant whose encoder runs out of memory on every batch of exactly one text, and
  works as before on the others.
\<close>

definition flaky_svc :: service where
  "flaky_svc =
     demo_svc\<lparr>model :=
       (\<lambda>enc. if length (input_ids enc) = 1 then Inl (Raised ''out of memory'')
              else demo_model enc)\<rparr>"

section \<open>Notions used in the statements\<close>

text \<open>
  The vectors a caller finds in a result: the result itself for a single string, its
  elements for a list.
\<close>

fun vectors_of :: "texts \<Rightarrow> pyval \<Rightarrow> pyval list" where
  "vectors_of (Str s) r = [r]"
| "vectors_of (StrList ts) (PList vs) = vs"
| "vectors_of (StrList ts) (PFloat x) = []"

text \<open>
  The shapes that the library guarantees: the hidden states \<open>[B, S, H]\<close> and the mask
  \<open>[B, S]\<close> agree in \<open>B\<close> and \<open>S\<close>, every sequence has one position at least, and
  every per-token vector has \<open>H\<close> entries.
\<close>

definition well_shaped :: "nat \<Rightarrow> tensor3 \<Rightarrow> int list list \<Rightarrow> bool" where
  "well_shaped H token_embeddings amask =
     list_all2 (\<lambda>toks mrow. length toks = length mrow \<and> toks \<noteq> [] \<and>
                  list_all (\<lambda>tok. length tok = H) toks)
       token_embeddings amask"

text \<open>An attention mask marks a position as real (1) or padding (0).\<close>

definition binary_mask :: "int list list \<Rightarrow> bool" where
  "binary_mask amask = list_all (list_all (\<lambda>m. m = 0 \<or> m = 1)) amask"

text \<open>
  The contract of the tokenizer and the encoder of a service with hidden size \<open>H\<close>:
  whenever both return, there is one row of hidden states per text of the batch and the
  shapes are as above.
\<close>

definition runtime_contract :: "service \<Rightarrow> nat \<Rightarrow> bool" where
  "runtime_contract svc H =
     (\<forall>batch encoded hidden.
        tokenizer svc batch (max_length svc) = Inr encoded \<longrightarrow>
        model svc encoded = Inr hidden \<longrightarrow>
        length hidden = length batch \<and> well_shaped H hidden (attention_mask encoded))"

text \<open>
  Pooling as the specification words it, for one text: every per-token vector is
  multiplied by its mask value, the products are summed over the sequence, and the sum is
  divided by the number of real tokens, floored at \<open>1e-9\<close>.
\<close>

definition masked_mean_spec :: "matrix \<Rightarrow> int list \<Rightarrow> vector" where
  "masked_mean_spec per_token mrow =
     (let products = map2 (\<lambda>v m. map (\<lambda>x. x * real_of_int m) v) per_token mrow;
          real_tokens = real (length (filter (\<lambda>m. m \<noteq> 0) mrow));
          width = (case per_token of [] \<Rightarrow> 0 | v # _ \<Rightarrow> length v)
      in map (\<lambda>j. (\<Sum>v\<leftarrow>products. v ! j) / max real_tokens (1 / 10 ^ 9)) [0..<width])"

text \<open>
  The computation of \<open>mean_pooling\<close> for one text of the batch: the same operations on
  the matrix of its per-token vectors and its row of the mask.
\<close>

definition pool_row :: "matrix \<Rightarrow> int list \<Rightarrow> vector" where
  "pool_row toks mrow =
     (let ime = map2 (\<lambda>m tok. replicate (length tok) (real_of_int m)) mrow toks
      in map2 (/) (col_sums (map2 (map2 (*)) toks ime))
           (map (\<lambda>x. max x (1 / 10 ^ 9)) (col_sums ime)))"

text \<open>What a call returned, if it returned.\<close>

fun returned :: "exn + 'a \<Rightarrow> 'a option" where
  "returned (Inl e) = None"
| "returned (Inr x) = Some x"

section \<open>Gathering task results\<close>

lemma collect_sync_loop: "collect (map (embed_batch svc) batches) = sync_loop svc batches"
  by (induction batches) (auto split: sum.splits)

lemma collect_failure:
  "i < length tasks \<Longrightarrow> tasks ! i = Inl e \<Longrightarrow> \<exists>e'. collect tasks = Inl e'"
proof (induction tasks arbitrary: i)
  case Nil
  then show ?case by simp
next
  case (Cons t tasks)
  show ?case
  proof (cases t)
    case (Inl e0)
    then show ?thesis by simp
  next
    case (Inr x)
    with Cons.prems obtain j where "i = Suc j" by (cases i) auto
    with Cons.prems have "j < length tasks" "tasks ! j = Inl e" by auto
    from Cons.IH [OF this] obtain e' where "collect tasks = Inl e'" ..
    with Inr show ?thesis by simp
  qed
qed

lemma collect_map_Inr: "collect (map Inr xs) = Inr xs"
  by (induction xs) simp_all

lemma collect_Inr_D: "collect tasks = Inr xs \<Longrightarrow> tasks = map Inr xs"
  by (induction tasks arbitrary: xs rule: collect.induct) (auto split: sum.splits)

lemma collect_Inl_D: "collect tasks = Inl e \<Longrightarrow> \<exists>i < length tasks. tasks ! i = Inl e"
proof (induction tasks rule: collect.induct)
  case 1
  then show ?case by simp
next
  case (2 e0 rest)
  then show ?case by auto
next
  case (3 x rest)
  then have "collect rest = Inl e" by (simp split: sum.splits)
  with 3 obtain i where "i < length rest" "rest ! i = Inl e" by blast
  then have "Suc i < length (Inr x # rest)" "(Inr x # rest) ! Suc i = Inl e" by simp_all
  then show ?case by blast
qed

lemma map_filter_failure_Cons:
  "List.map_filter (failure_at tasks) completion = e # es \<Longrightarrow>
     \<exists>i < length tasks. tasks ! i = Inl e"
proof (induction completion)
  case Nil
  then show ?case by simp
next
  case (Cons c completion)
  show ?case
  proof (cases "failure_at tasks c")
    case None
    with Cons show ?thesis by simp
  next
    case (Some e0)
    with Cons.prems have "e0 = e" by simp
    with Some show ?thesis
      by (auto simp: failure_at_def split: if_splits sum.splits)
  qed
qed

lemma gather_failure:
  assumes "gather completion tasks = Inl e"
  shows "\<exists>i < length tasks. tasks ! i = Inl e"
proof (cases "List.map_filter (failure_at tasks) completion")
  case Nil
  with assms have "collect tasks = Inl e" by (simp add: gather_def)
  then show ?thesis by (rule collect_Inl_D)
next
  case (Cons e0 es)
  with assms have "e0 = e" by (simp add: gather_def)
  with Cons map_filter_failure_Cons show ?thesis by blast
qed

lemma returned_gather: "returned (gather completion tasks) = returned (collect tasks)"
proof (cases "List.map_filter (failure_at tasks) completion")
  case Nil
  then show ?thesis by (simp add: gather_def)
next
  case (Cons e es)
  from map_filter_failure_Cons [OF Cons] collect_failure
  obtain e' where "collect tasks = Inl e'" by blast
  with Cons show ?thesis by (simp add: gather_def)
qed

lemma gather_Inr_iff:
  "gather completion (map (embed_batch svc) batches) = Inr ms \<longleftrightarrow> sync_loop svc batches = Inr ms"
proof -
  have "returned (gather completion (map (embed_batch svc) batches)) = returned (sync_loop svc batches)"
    by (simp add: returned_gather collect_sync_loop)
  then show ?thesis
    by (cases "gather completion (map (embed_batch svc) batches)"; cases "sync_loop svc batches") auto
qed

lemma returned_bind:
  "returned a = returned b \<Longrightarrow>
   returned (case a of Inl e \<Rightarrow> Inl e | Inr x \<Rightarrow> f x) =
   returned (case b of Inl e \<Rightarrow> Inl e | Inr x \<Rightarrow> f x)"
  by (cases a; cases b) auto

lemma make_batches_Nil: "B \<noteq> 0 \<Longrightarrow> make_batches B [] = Inr []"
  by (simp add: make_batches_def py_range.simps)

lemma gather_Nil: "gather completion [] = Inr []"
proof -
  have "List.map_filter (failure_at ([] :: (exn + 'a) list)) completion = []"
    by (induction completion) (simp_all add: failure_at_def)
  then show ?thesis by (simp add: gather_def)
qed

section \<open>Norms\<close>

lemma l2_norm_nonneg: "0 \<le> l2_norm v"
  by (auto simp: l2_norm_def intro!: sum_list_nonneg)

lemma sum_list_div_sq:
  "(\<Sum>x\<leftarrow>v. (x / c)\<^sup>2) = (\<Sum>x\<leftarrow>v. x\<^sup>2) / c\<^sup>2" for c :: real
  by (induction v) (simp_all add: power_divide add_divide_distrib)

lemma l2_norm_scale:
  assumes "0 < c"
  shows "l2_norm (map (\<lambda>x. x / c) v) = l2_norm v / c"
proof -
  have "l2_norm (map (\<lambda>x. x / c) v) = sqrt ((\<Sum>x\<leftarrow>v. x\<^sup>2) / c\<^sup>2)"
    by (simp add: l2_norm_def comp_def sum_list_div_sq)
  also have "\<dots> = sqrt (\<Sum>x\<leftarrow>v. x\<^sup>2) / \<bar>c\<bar>"
    by (simp add: real_sqrt_divide)
  finally show ?thesis using assms by (simp add: l2_norm_def)
qed

lemma normalize_row_unit:
  assumes "1 / 10 ^ 12 \<le> l2_norm p"
  shows "l2_norm (normalize_row p) = 1"
proof -
  have "(0::real) < 1 / 10 ^ 12" by simp
  with assms have pos: "0 < l2_norm p" by linarith
  from assms have "max (l2_norm p) (1 / 10 ^ 12) = l2_norm p" by simp
  with l2_norm_scale [OF pos, of p] pos show ?thesis by (simp add: normalize_row_def)
qed

lemma normalize_row_tiny:
  assumes "l2_norm p < 1 / 10 ^ 12"
  shows "l2_norm (normalize_row p) = 10 ^ 12 * l2_norm p"
proof -
  have pos: "(0::real) < 1 / 10 ^ 12" by simp
  from assms have "max (l2_norm p) (1 / 10 ^ 12) = 1 / 10 ^ 12" by simp
  with l2_norm_scale [OF pos, of p] show ?thesis by (simp add: normalize_row_def)
qed

lemma length_normalize_row: "length (normalize_row p) = length p"
  by (simp add: normalize_row_def)

section \<open>Pooling, text by text\<close>

lemma mean_pooling_rows: "mean_pooling te am = map2 pool_row te am"
proof (induction te arbitrary: am)
  case Nil
  then show ?case
    by (simp add: mean_pooling_def expand_mask_def mul3_def sum_dim1_def clamp_min_def)
next
  case (Cons t te)
  show ?case
  proof (cases am)
    case Nil
    then show ?thesis
      by (simp add: mean_pooling_def expand_mask_def mul3_def sum_dim1_def clamp_min_def)
  next
    case (Cons a am')
    with Cons.IH [of am'] show ?thesis
      by (simp add: mean_pooling_def expand_mask_def mul3_def sum_dim1_def clamp_min_def
          pool_row_def Let_def)
  qed
qed

lemma col_sums_rect:
  assumes "rows \<noteq> []" "\<forall>r\<in>set rows. length r = H"
  shows "col_sums rows = map (\<lambda>j. \<Sum>r\<leftarrow>rows. r ! j) [0..<H]"
  using assms
proof (induction rows rule: col_sums.induct)
  case 1
  then show ?case by simp
next
  case (2 r)
  then show ?case by (auto intro: nth_equalityI)
next
  case (3 r r' rs)
  then have IH: "col_sums (r' # rs) = map (\<lambda>j. \<Sum>x\<leftarrow>r' # rs. x ! j) [0..<H]" by simp
  from 3 have len: "length r = H" by simp
  show ?case
    by (rule nth_equalityI) (simp_all add: IH len)
qed


lemma ime_facts:
  assumes "length toks = length mrow" "toks \<noteq> []" "\<forall>tok\<in>set toks. length tok = H"
  shows "map2 (\<lambda>m tok. replicate (length tok) (real_of_int m)) mrow toks \<noteq> []"
    and "\<forall>r\<in>set (map2 (\<lambda>m tok. replicate (length tok) (real_of_int m)) mrow toks). length r = H"
proof -
  from assms(1,2) show "map2 (\<lambda>m tok. replicate (length tok) (real_of_int m)) mrow toks \<noteq> []"
    by (cases toks; cases mrow) simp_all
  show "\<forall>r\<in>set (map2 (\<lambda>m tok. replicate (length tok) (real_of_int m)) mrow toks). length r = H"
  proof
    fix r assume "r \<in> set (map2 (\<lambda>m tok. replicate (length tok) (real_of_int m)) mrow toks)"
    then obtain m tok where mt: "(m, tok) \<in> set (zip mrow toks)" "r = replicate (length tok) (real_of_int m)"
      by auto
    from mt(1) have "tok \<in> set toks" by (rule set_zip_rightD)
    with assms(3) mt(2) show "length r = H" by simp
  qed
qed

lemma mask_column_sum:
  assumes "length toks = length mrow" "\<forall>tok\<in>set toks. length tok = H" "j < H"
  shows "(\<Sum>r\<leftarrow>map2 (\<lambda>m tok. replicate (length tok) (real_of_int m)) mrow toks. r ! j) =
         (\<Sum>m\<leftarrow>mrow. real_of_int m)"
  using assms
proof (induction toks mrow rule: list_induct2)
  case Nil
  then show ?case by simp
next
  case (Cons t ts m ms)
  then show ?case by simp
qed

lemma product_column_sum:
  assumes "length toks = length mrow" "\<forall>tok\<in>set toks. length tok = H" "j < H"
  shows "(\<Sum>r\<leftarrow>map2 (map2 (*)) toks (map2 (\<lambda>m tok. replicate (length tok) (real_of_int m)) mrow toks). r ! j) =
         (\<Sum>(tok, m)\<leftarrow>zip toks mrow. tok ! j * real_of_int m)"
  using assms
proof (induction toks mrow rule: list_induct2)
  case Nil
  then show ?case by simp
next
  case (Cons t ts m ms)
  then show ?case by simp
qed

lemma prod_facts:
  assumes "length toks = length mrow" "toks \<noteq> []" "\<forall>tok\<in>set toks. length tok = H"
  shows "map2 (map2 (*)) toks (map2 (\<lambda>m tok. replicate (length tok) (real_of_int m)) mrow toks) \<noteq> []"
    and "\<forall>r\<in>set (map2 (map2 (*)) toks (map2 (\<lambda>m tok. replicate (length tok) (real_of_int m)) mrow toks)). length r = H"
proof -
  let ?ime = "map2 (\<lambda>m tok. replicate (length tok) (real_of_int m)) mrow toks"
  from assms(1,2) show "map2 (map2 (*)) toks ?ime \<noteq> []"
    by (cases toks; cases mrow) simp_all
  show "\<forall>r\<in>set (map2 (map2 (*)) toks ?ime). length r = H"
  proof
    fix r assume "r \<in> set (map2 (map2 (*)) toks ?ime)"
    then obtain tok i where ti: "(tok, i) \<in> set (zip toks ?ime)" "r = map2 (*) tok i"
      by auto
    from ti(1) have "tok \<in> set toks" "i \<in> set ?ime"
      by (rule set_zip_leftD, rule set_zip_rightD)
    with assms(3) ime_facts(2) [OF assms] have "length tok = H" "length i = H" by blast+
    with ti(2) show "length r = H" by simp
  qed
qed

lemma pool_row_rect:
  assumes "length toks = length mrow" "toks \<noteq> []" "\<forall>tok\<in>set toks. length tok = H"
  shows "pool_row toks mrow =
           map (\<lambda>j. (\<Sum>(tok, m)\<leftarrow>zip toks mrow. tok ! j * real_of_int m) /
                      max (\<Sum>m\<leftarrow>mrow. real_of_int m) (1 / 10 ^ 9)) [0..<H]"
proof -
  let ?ime = "map2 (\<lambda>m tok. replicate (length tok) (real_of_int m)) mrow toks"
  let ?prod = "map2 (map2 (*)) toks ?ime"
  have s1: "col_sums ?ime = map (\<lambda>j. \<Sum>r\<leftarrow>?ime. r ! j) [0..<H]"
    by (rule col_sums_rect [OF ime_facts [OF assms]])
  have s2: "col_sums ?prod = map (\<lambda>j. \<Sum>r\<leftarrow>?prod. r ! j) [0..<H]"
    by (rule col_sums_rect [OF prod_facts [OF assms]])
  have s1': "col_sums ?ime = map (\<lambda>j. \<Sum>m\<leftarrow>mrow. real_of_int m) [0..<H]"
    unfolding s1 by (rule map_cong [OF refl]) (use mask_column_sum [OF assms(1,3)] in simp)
  have s2': "col_sums ?prod = map (\<lambda>j. \<Sum>(tok, m)\<leftarrow>zip toks mrow. tok ! j * real_of_int m) [0..<H]"
    unfolding s2 by (rule map_cong [OF refl]) (use product_column_sum [OF assms(1,3)] in simp)
  have "pool_row toks mrow = map2 (/) (col_sums ?prod) (map (\<lambda>x. max x (1 / 10 ^ 9)) (col_sums ?ime))"
    by (simp only: pool_row_def Let_def)
  also have "\<dots> = map (\<lambda>j. (\<Sum>(tok, m)\<leftarrow>zip toks mrow. tok ! j * real_of_int m) /
                      max (\<Sum>m\<leftarrow>mrow. real_of_int m) (1 / 10 ^ 9)) [0..<H]"
    unfolding s1' s2' by (rule nth_equalityI) simp_all
  finally show ?thesis .
qed

lemma length_pool_row:
  assumes "length toks = length mrow" "toks \<noteq> []" "\<forall>tok\<in>set toks. length tok = H"
  shows "length (pool_row toks mrow) = H"
  by (simp add: pool_row_rect [OF assms])

lemma sum_binary_mask:
  "list_all (\<lambda>m. m = 0 \<or> m = 1) mrow \<Longrightarrow>
     (\<Sum>m\<leftarrow>mrow. real_of_int m) = real (length (filter (\<lambda>m. m \<noteq> 0) mrow))"
proof (induction mrow)
  case Nil
  then show ?case by simp
next
  case (Cons m mrow)
  from Cons.prems have m: "m = 0 \<or> m = 1" by simp
  from Cons.prems have "list_all (\<lambda>m. m = 0 \<or> m = 1) mrow" by simp
  then have IH: "(\<Sum>m\<leftarrow>mrow. real_of_int m) = real (length (filter (\<lambda>m. m \<noteq> 0) mrow))"
    by (rule Cons.IH)
  from m show ?case
  proof
    assume "m = 0" with IH show ?thesis by simp
  next
    assume "m = 1" with IH show ?thesis by simp
  qed
qed

lemma masked_mean_spec_rect:
  assumes "length toks = length mrow" "toks \<noteq> []" "\<forall>tok\<in>set toks. length tok = H"
  shows "masked_mean_spec toks mrow =
           map (\<lambda>j. (\<Sum>(tok, m)\<leftarrow>zip toks mrow. tok ! j * real_of_int m) /
                      max (real (length (filter (\<lambda>m. m \<noteq> 0) mrow))) (1 / 10 ^ 9)) [0..<H]"
proof -
  from assms(2,3) have w: "(case toks of [] \<Rightarrow> 0 | v # _ \<Rightarrow> length v) = H"
    by (cases toks) auto
  have e: "(\<Sum>v\<leftarrow>map2 (\<lambda>v m. map (\<lambda>x. x * real_of_int m) v) toks mrow. v ! j) =
           (\<Sum>(tok, m)\<leftarrow>zip toks mrow. tok ! j * real_of_int m)" if "j < H" for j
    using assms(1,3) that
  proof (induction toks mrow rule: list_induct2)
    case Nil
    then show ?case by simp
  next
    case (Cons t ts m ms)
    then show ?case by simp
  qed
  show ?thesis
    unfolding masked_mean_spec_def Let_def w
  proof (rule nth_equalityI)
    show "length (map (\<lambda>j. (\<Sum>v\<leftarrow>map2 (\<lambda>v m. map (\<lambda>x. x * real_of_int m) v) toks mrow. v ! j) /
            max (real (length (filter (\<lambda>m. m \<noteq> 0) mrow))) (1 / 10 ^ 9)) [0..<H]) =
          length (map (\<lambda>j. (\<Sum>(tok, m)\<leftarrow>zip toks mrow. tok ! j * real_of_int m) /
            max (real (length (filter (\<lambda>m. m \<noteq> 0) mrow))) (1 / 10 ^ 9)) [0..<H])"
      by simp
  next
    fix i
    assume "i < length (map (\<lambda>j. (\<Sum>v\<leftarrow>map2 (\<lambda>v m. map (\<lambda>x. x * real_of_int m) v) toks mrow. v ! j) /
            max (real (length (filter (\<lambda>m. m \<noteq> 0) mrow))) (1 / 10 ^ 9)) [0..<H])"
    then have "i < H" by simp
    with e [of i] show "map (\<lambda>j. (\<Sum>v\<leftarrow>map2 (\<lambda>v m. map (\<lambda>x. x * real_of_int m) v) toks mrow. v ! j) /
            max (real (length (filter (\<lambda>m. m \<noteq> 0) mrow))) (1 / 10 ^ 9)) [0..<H] ! i =
          map (\<lambda>j. (\<Sum>(tok, m)\<leftarrow>zip toks mrow. tok ! j * real_of_int m) /
            max (real (length (filter (\<lambda>m. m \<noteq> 0) mrow))) (1 / 10 ^ 9)) [0..<H] ! i"
      by simp
  qed
qed

lemma pool_row_spec:
  assumes "length toks = length mrow" "toks \<noteq> []" "\<forall>tok\<in>set toks. length tok = H"
    and "list_all (\<lambda>m. m = 0 \<or> m = 1) mrow"
  shows "pool_row toks mrow = masked_mean_spec toks mrow"
  by (simp add: pool_row_rect [OF assms(1-3)] masked_mean_spec_rect [OF assms(1-3)]
      sum_binary_mask [OF assms(4)])

lemma mean_pooling_spec:
  assumes "well_shaped H te am" "binary_mask am"
  shows "mean_pooling te am = map2 masked_mean_spec te am"
proof -
  from assms(1) have len: "length te = length am"
    by (simp add: well_shaped_def list_all2_lengthD)
  have "pool_row toks mrow = masked_mean_spec toks mrow" if "(toks, mrow) \<in> set (zip te am)"
    for toks mrow
  proof -
    from that assms(1) have "length toks = length mrow \<and> toks \<noteq> [] \<and>
        list_all (\<lambda>tok. length tok = H) toks"
      by (auto simp: well_shaped_def list_all2_iff)
    moreover from that assms(2) have "list_all (\<lambda>m. m = 0 \<or> m = 1) mrow"
      by (auto simp: binary_mask_def list_all_iff dest: set_zip_rightD)
    ultimately show ?thesis using pool_row_spec [of toks mrow H] by (simp add: list_all_iff)
  qed
  then have "map2 pool_row te am = map2 masked_mean_spec te am"
    by (intro map_cong) auto
  then show ?thesis by (simp only: mean_pooling_rows)
qed

lemma mean_pooling_shape:
  assumes "well_shaped H te am"
  shows "length (mean_pooling te am) = length te \<and> (\<forall>p\<in>set (mean_pooling te am). length p = H)"
proof -
  from assms have len: "length te = length am"
    by (simp add: well_shaped_def list_all2_lengthD)
  have "length (pool_row toks mrow) = H" if "(toks, mrow) \<in> set (zip te am)" for toks mrow
  proof -
    from that assms have "length toks = length mrow \<and> toks \<noteq> [] \<and>
        list_all (\<lambda>tok. length tok = H) toks"
      by (auto simp: well_shaped_def list_all2_iff)
    then show ?thesis using length_pool_row [of toks mrow H] by (simp add: list_all_iff)
  qed
  with len show ?thesis unfolding mean_pooling_rows by auto
qed

section \<open>Evaluation on the concrete services\<close>

lemmas demo_defs = demo_svc_def demo_tokenizer_def demo_model_def flaky_svc_def
lemmas pooling_defs = embed_batch_def mean_pooling_def expand_mask_def mul3_def sum_dim1_def
  clamp_min_def normalize_l2_def normalize_row_def l2_norm_def

lemma gather_fails:
  assumes "i < length tasks" "tasks ! i = Inl e"
  shows "\<exists>e'. gather completion tasks = Inl e'"
proof (cases "List.map_filter (failure_at tasks) completion")
  case Nil
  from collect_failure [OF assms] obtain e' where "collect tasks = Inl e'" ..
  with Nil show ?thesis by (simp add: gather_def)
next
  case (Cons e0 es)
  then show ?thesis by (simp add: gather_def)
qed

lemma finish_single:
  "finish True rs = Inr v \<longleftrightarrow> (\<exists>rest. finish False rs = Inr (PList (v # rest)))"
  by (auto simp: finish_def Let_def split: sum.splits list.splits)

lemma finish_single_vector:
  "finish True rs = Inr v \<Longrightarrow> \<exists>xs. v = PList (map PFloat xs)"
  by (auto simp: finish_def Let_def tolist_def split: sum.splits list.splits)

section \<open>What a successful call returns\<close>

lemma sync_loop_Inr: "sync_loop svc batches = Inr ms \<Longrightarrow> map (embed_batch svc) batches = map Inr ms"
  by (rule collect_Inr_D) (simp add: collect_sync_loop)

lemma sync_loop_Inr_iff: "sync_loop svc batches = Inr ms \<longleftrightarrow> map (embed_batch svc) batches = map Inr ms"
  using collect_map_Inr [of ms] sync_loop_Inr [of svc batches ms]
  by (auto simp: collect_sync_loop [symmetric])

lemma vstack_Inr: "vstack ms = Inr arr \<Longrightarrow> ms \<noteq> [] \<and> arr = concat ms"
  by (auto simp: vstack_def split: if_splits list.splits)

lemma finish_Inr:
  assumes "finish single_input ms = Inr r"
  shows "ms \<noteq> [] \<and>
         (if single_input then \<exists>first rest. concat ms = first # rest \<and> r = PList (map PFloat first)
          else r = PList (tolist (concat ms)))"
  using assms
  by (auto simp: finish_def Let_def tolist_def split: sum.splits list.splits if_splits dest!: vstack_Inr)

lemma embed_Inr:
  assumes "embed_sync svc q = Inr r \<or> embed_async completion svc q = Inr r"
  shows "\<exists>batches ms. make_batches (batch_size svc) (fst (as_list q)) = Inr batches \<and>
           map (embed_batch svc) batches = map Inr ms \<and> finish (snd (as_list q)) ms = Inr r"
proof -
  obtain ts single_input where q: "as_list q = (ts, single_input)" by (cases "as_list q")
  from assms q obtain batches where b: "make_batches (batch_size svc) ts = Inr batches"
    by (auto simp: embed_sync_def embed_async_def split: sum.splits)
  from assms q b obtain ms where "sync_loop svc batches = Inr ms" "finish single_input ms = Inr r"
    by (auto simp: embed_sync_def embed_async_def gather_Inr_iff split: sum.splits)
  with q b show ?thesis by (auto dest: sync_loop_Inr)
qed

lemma vectors_of_rows:
  assumes "finish (snd (as_list q)) ms = Inr r" "x \<in> set (vectors_of q r)"
  shows "\<exists>row\<in>set (concat ms). x = PList (map PFloat row)"
proof (cases q)
  case (Str s)
  with assms finish_Inr [OF assms(1)] show ?thesis by (auto simp del: set_concat)
next
  case (StrList ts)
  with assms finish_Inr [OF assms(1)] show ?thesis by (auto simp: tolist_def simp del: set_concat)
qed

lemma demo_batch_size: "batch_size demo_svc = 2"
  by (simp add: demo_svc_def)

lemma make_batches_single: "0 < B \<Longrightarrow> make_batches B [t] = Inr [[t]]"
proof -
  assume B: "0 < B"
  then have "py_range (0 + nat B) (length [t]) (nat B) = []"
    by (subst py_range.simps) auto
  with B have "py_range 0 (length [t]) (nat B) = [0]"
    by (subst py_range.simps) simp
  with B show ?thesis by (simp add: make_batches_def)
qed

section \<open>Chunks\<close>

lemma chunk_count_step:
  fixes b :: nat
  assumes "0 < b" "i < n"
  shows "(n - i + b - 1) div b = Suc ((n - (i + b) + b - 1) div b)"
proof (cases "i + b \<le> n")
  case True
  then have a: "n - i + b - 1 = (n - Suc i) + b" and c: "n - (i + b) + b - 1 = n - Suc i"
    using assms by arith+
  have "((n - Suc i) + b) div b = Suc ((n - Suc i) div b)" using assms(1) by simp
  then show ?thesis by (simp only: a c)
next
  case False
  with assms have "b * 1 \<le> n - i + b - 1" "n - i + b - 1 < b * Suc 1" by simp_all
  then have "(n - i + b - 1) div b = 1" by (rule div_nat_eqI)
  moreover from False assms(1) have "(n - (i + b) + b - 1) div b = 0" by simp
  ultimately show ?thesis by simp
qed

lemma py_range_closed:
  "0 < step \<Longrightarrow> py_range i stop step = map (\<lambda>k. i + k * step) [0..<(stop - i + step - 1) div step]"
proof (induction i stop step rule: py_range.induct)
  case (1 i stop step)
  show ?case
  proof (cases "i < stop")
    case True
    with 1 have IH: "py_range (i + step) stop step =
        map (\<lambda>k. i + step + k * step) [0..<(stop - (i + step) + step - 1) div step]" by simp
    have upt: "[0..<Suc m] = 0 # map Suc [0..<m]" for m
      by (simp add: upt_conv_Cons map_Suc_upt del: upt_Suc)
    have aux: "i # map (\<lambda>k. i + step + k * step) [0..<m] = map (\<lambda>k. i + k * step) [0..<Suc m]" for m
      unfolding upt by (simp add: comp_def add.assoc)
    have cnt: "(stop - i + step - 1) div step = Suc ((stop - (i + step) + step - 1) div step)"
      using 1(2) True by (rule chunk_count_step)
    have "py_range i stop step = i # py_range (i + step) stop step"
      using True 1(2) by (subst py_range.simps) simp
    also have "\<dots> = i # map (\<lambda>k. i + step + k * step) [0..<(stop - (i + step) + step - 1) div step]"
      by (simp only: IH)
    also have "\<dots> = map (\<lambda>k. i + k * step) [0..<Suc ((stop - (i + step) + step - 1) div step)]"
      by (rule aux)
    finally show ?thesis by (simp only: cnt)
  next
    case False
    with 1(2) have "(stop - i + step - 1) div step = 0" by simp
    with False show ?thesis by (subst py_range.simps) simp
  qed
qed

lemma make_batches_closed:
  assumes "0 < B"
  shows "make_batches B ts =
           Inr (map (\<lambda>k. take (nat B) (drop (k * nat B) ts))
                  [0..<(length ts + nat B - 1) div nat B])"
  using assms by (simp add: make_batches_def py_range_closed comp_def)

lemma chunk_index_bound:
  fixes b :: nat
  assumes "0 < b" "k < (n + b - 1) div b"
  shows "k * b < n"
proof (rule ccontr)
  assume "\<not> k * b < n"
  then have "n \<le> k * b" by simp
  then have "n + b - 1 < (k + 1) * b" using assms(1) by simp
  then have "(n + b - 1) div b < k + 1" using assms(1)
    by (simp add: div_less_iff_less_mult)
  with assms(2) show False by simp
qed

lemma chunk_index_bound_iff:
  fixes b :: nat
  assumes "0 < b"
  shows "k < (n + b - 1) div b \<longleftrightarrow> k * b < n"
proof
  assume "k < (n + b - 1) div b" with assms show "k * b < n" by (rule chunk_index_bound)
next
  assume "k * b < n"
  then have "(k + 1) * b \<le> n + b - 1" using assms by simp
  then have "k + 1 \<le> (n + b - 1) div b" using assms
    by (simp add: less_eq_div_iff_mult_less_eq)
  then show "k < (n + b - 1) div b" by simp
qed

lemma concat_chunks:
  assumes "0 < b"
  shows "concat (map (\<lambda>k. take b (drop (k * b) ts)) [0..<(length ts + b - 1) div b]) = ts"
proof -
  have "concat (map (\<lambda>k. take b (drop (k * b) ts)) [0..<m]) = take (m * b) ts" for m
  proof (induction m)
    case 0
    then show ?case by simp
  next
    case (Suc m)
    have "take (m * b) ts @ take b (drop (m * b) ts) = take (m * b + b) ts"
      by (simp add: take_add)
    with Suc show ?case by (simp add: add.commute)
  qed
  moreover have "length ts \<le> ((length ts + b - 1) div b) * b"
  proof (rule ccontr)
    assume "\<not> length ts \<le> ((length ts + b - 1) div b) * b"
    then have "((length ts + b - 1) div b) * b < length ts" by simp
    with assms have "(length ts + b - 1) div b < (length ts + b - 1) div b"
      by (simp add: chunk_index_bound_iff [symmetric])
    then show False by simp
  qed
  ultimately show ?thesis by simp
qed

lemma chunk_count_ceiling:
  fixes b :: nat
  assumes "0 < b"
  shows "\<lceil>real n / real b\<rceil> = int ((n + b - 1) div b)"
proof (rule ceiling_unique)
  let ?q = "(n + b - 1) div b"
  have "\<not> ?q * b < n" using chunk_index_bound_iff [OF assms, of ?q n] by simp
  then have "n \<le> ?q * b" by simp
  then have "real n \<le> real (?q * b)" by (simp only: of_nat_le_iff)
  then show "real n / real b \<le> of_int (int ?q)"
    using assms by (simp add: pos_divide_le_eq)
  show "of_int (int ?q) - 1 < real n / real b"
  proof (cases ?q)
    case 0
    have "0 \<le> real n / real b" by simp
    moreover from 0 have "of_int (int ?q) = (0::real)" by simp
    ultimately show ?thesis by linarith
  next
    case (Suc k)
    then have "k < ?q" by simp
    then have "k * b < n" using chunk_index_bound_iff [OF assms, of k n] by simp
    then have "real (k * b) < real n" by (simp only: of_nat_less_iff)
    then have "real k < real n / real b" using assms by (simp add: pos_less_divide_eq)
    with Suc show ?thesis by simp
  qed
qed

section \<open>Results under the contract of the library\<close>

lemma embed_batch_shape:
  assumes "runtime_contract svc H" "embed_batch svc batch = Inr m"
  shows "length m = length batch \<and> (\<forall>row\<in>set m. length row = H)"
proof -
  from assms(2) obtain encoded hidden where
    t: "tokenizer svc batch (max_length svc) = Inr encoded" and
    h: "model svc encoded = Inr hidden" and
    m: "m = normalize_l2 (mean_pooling hidden (attention_mask encoded))"
    by (auto simp: embed_batch_def split: sum.splits)
  from assms(1) t h have "length hidden = length batch"
    "well_shaped H hidden (attention_mask encoded)"
    by (simp_all add: runtime_contract_def)
  with mean_pooling_shape [of H hidden "attention_mask encoded"] m show ?thesis
    by (auto simp: normalize_l2_def length_normalize_row)
qed

lemma length_concat_cong:
  assumes "length xs = length ys" "\<forall>k<length xs. length (xs ! k) = length (ys ! k)"
  shows "length (concat xs) = length (concat ys)"
  using assms
proof (induction xs ys rule: list_induct2)
  case Nil
  then show ?case by simp
next
  case (Cons x xs y ys)
  from Cons.prems have "length x = length y" by auto
  moreover from Cons.prems have "\<forall>k<length xs. length (xs ! k) = length (ys ! k)" by auto
  ultimately show ?case using Cons.IH by simp
qed

lemma drop_concat_uniform:
  assumes "\<forall>j<k. length (xs ! j) = b" "k \<le> length xs"
  shows "drop (k * b) (concat xs) = concat (drop k xs)"
  using assms
proof (induction xs arbitrary: k)
  case Nil
  then show ?case by simp
next
  case (Cons x xs)
  show ?case
  proof (cases k)
    case 0
    then show ?thesis by simp
  next
    case (Suc k')
    with Cons.prems have x: "length x = b" by auto
    from Suc Cons.prems have "\<forall>j<k'. length (xs ! j) = b" "k' \<le> length xs" by auto
    from Cons.IH [OF this] x Suc show ?thesis by simp
  qed
qed

lemma take_drop_concat_uniform:
  assumes "\<forall>j<k. length (xs ! j) = b" "k < length xs"
  shows "take (length (xs ! k)) (drop (k * b) (concat xs)) = xs ! k"
proof -
  from assms have "drop (k * b) (concat xs) = concat (drop k xs)"
    by (intro drop_concat_uniform) simp_all
  also from assms(2) have "drop k xs = xs ! k # drop (Suc k) xs"
    by (simp add: Cons_nth_drop_Suc)
  finally show ?thesis by simp
qed

lemma vstack_uniform:
  assumes "ms \<noteq> []" "\<forall>row\<in>set (concat ms). length row = H"
  shows "vstack ms = Inr (concat ms)"
proof (cases "concat ms")
  case Nil
  show ?thesis unfolding vstack_def Nil using assms(1) by simp
next
  case (Cons r rs)
  with assms(2) have "length r = H" "\<forall>r'\<in>set rs. length r' = H"
    by (metis list.set_intros(1), metis list.set_intros(2))
  then have "list_all (\<lambda>r'. length r' = length r) rs" by (simp add: list_all_iff)
  then show ?thesis unfolding vstack_def Cons using assms(1) by simp
qed

lemma all_succeed:
  assumes "\<forall>batch\<in>set batches. \<exists>m. embed_batch svc batch = Inr m"
  shows "\<exists>ms. map (embed_batch svc) batches = map Inr ms"
  using assms
proof (induction batches)
  case Nil
  then show ?case by simp
next
  case (Cons batch batches)
  then obtain m ms where "embed_batch svc batch = Inr m"
    "map (embed_batch svc) batches = map Inr ms" by auto
  then have "map (embed_batch svc) (batch # batches) = map Inr (m # ms)" by simp
  then show ?case by blast
qed

lemma rows_of_results:
  assumes "runtime_contract svc H" "map (embed_batch svc) batches = map Inr ms"
  shows "length ms = length batches"
    and "\<forall>k<length batches. embed_batch svc (batches ! k) = Inr (ms ! k) \<and>
           length (ms ! k) = length (batches ! k)"
    and "\<forall>row\<in>set (concat ms). length row = H"
    and "length (concat ms) = length (concat batches)"
proof -
  from assms(2) show len: "length ms = length batches"
    by (metis length_map)
  have e: "embed_batch svc (batches ! k) = Inr (ms ! k)" if "k < length batches" for k
    using that assms(2) len by (metis nth_map)
  then show k: "\<forall>k<length batches. embed_batch svc (batches ! k) = Inr (ms ! k) \<and>
           length (ms ! k) = length (batches ! k)"
    using embed_batch_shape [OF assms(1)] by blast
  show "\<forall>row\<in>set (concat ms). length row = H"
  proof
    fix row assume "row \<in> set (concat ms)"
    then obtain m0 where "m0 \<in> set ms" "row \<in> set m0" by auto
    then obtain k where "k < length ms" "row \<in> set (ms ! k)" by (metis in_set_conv_nth)
    with len e [of k] embed_batch_shape [OF assms(1)] show "length row = H" by auto
  qed
  from len k show "length (concat ms) = length (concat batches)"
    by (intro length_concat_cong) simp_all
qed

lemma batches_concat:
  assumes "make_batches B ts = Inr batches"
  shows "concat batches = ts \<or> (B < 0 \<and> batches = [])"
proof (cases "0 < B")
  case True
  with assms make_batches_closed [OF True, of ts] concat_chunks [of "nat B" ts] show ?thesis
    by simp
next
  case False
  with assms show ?thesis by (auto simp: make_batches_def split: if_splits)
qed

lemma embed_list_result:
  assumes "runtime_contract svc H"
    and "embed_sync svc (StrList ts) = Inr r \<or> embed_async completion svc (StrList ts) = Inr r"
  shows "\<exists>vs. r = PList (tolist vs) \<and> length vs = length ts \<and> (\<forall>row\<in>set vs. length row = H)"
proof -
  from embed_Inr [OF assms(2)] obtain batches ms where
    b: "make_batches (batch_size svc) ts = Inr batches" and
    m: "map (embed_batch svc) batches = map Inr ms" and
    f: "finish False ms = Inr r" by auto
  from finish_Inr [OF f] have ne: "ms \<noteq> []" and r: "r = PList (tolist (concat ms))" by simp_all
  from rows_of_results(1) [OF assms(1) m] ne have "batches \<noteq> []" by auto
  with batches_concat [OF b] have "concat batches = ts" by auto
  with rows_of_results(3,4) [OF assms(1) m] r
  have "r = PList (tolist (concat ms)) \<and> length (concat ms) = length ts \<and>
        (\<forall>row\<in>set (concat ms). length row = H)" by simp
  then show ?thesis by blast
qed

lemma embed_single_result:
  assumes "runtime_contract svc H"
    and "embed_sync svc (Str s) = Inr r \<or> embed_async completion svc (Str s) = Inr r"
  shows "\<exists>xs. r = PList (map PFloat xs) \<and> length xs = H"
proof -
  from embed_Inr [OF assms(2)] obtain batches ms where
    m: "map (embed_batch svc) batches = map Inr ms" and
    f: "finish True ms = Inr r" by auto
  from finish_Inr [OF f] obtain first rest where
    c: "concat ms = first # rest" "r = PList (map PFloat first)" by auto
  from c(1) have "first \<in> set (concat ms)" by (metis list.set_intros(1))
  with rows_of_results(3) [OF assms(1) m] have "length first = H" by blast
  with c(2) show ?thesis by blast
qed

section \<open>The chunks of a request and their results\<close>

lemma scheduler_core:
  assumes "0 < batch_size svc" and "ts \<noteq> []" and "runtime_contract svc H"
    and "\<forall>k. k * nat (batch_size svc) < length ts \<longrightarrow>
           (\<exists>m. embed_batch svc
                  (take (nat (batch_size svc)) (drop (k * nat (batch_size svc)) ts)) = Inr m)"
  shows "\<exists>batches ms.
      make_batches (batch_size svc) ts = Inr batches \<and>
      sync_loop svc batches = Inr ms \<and>
      vstack ms = Inr (concat ms) \<and>
      length (concat ms) = length ts \<and>
      (\<forall>row\<in>set (concat ms). length row = H) \<and>
      (\<forall>k. k * nat (batch_size svc) < length ts \<longrightarrow>
         embed_batch svc (take (nat (batch_size svc)) (drop (k * nat (batch_size svc)) ts)) =
           Inr (take (length (take (nat (batch_size svc)) (drop (k * nat (batch_size svc)) ts)))
                  (drop (k * nat (batch_size svc)) (concat ms))))"
proof -
  define b where "b = nat (batch_size svc)"
  define batches where "batches = map (\<lambda>k. take b (drop (k * b) ts)) [0..<(length ts + b - 1) div b]"
  from assms(1) have b: "0 < b" by (simp add: b_def)
  have mb: "make_batches (batch_size svc) ts = Inr batches"
    using make_batches_closed [OF assms(1), of ts] by (simp add: batches_def b_def)
  have cnt: "length batches = (length ts + b - 1) div b" by (simp add: batches_def)
  have cc: "concat batches = ts" unfolding batches_def by (rule concat_chunks [OF b])
  have nth: "batches ! k = take b (drop (k * b) ts)" if "k < length batches" for k
    using that by (simp add: batches_def)
  have inb: "k < length batches \<longleftrightarrow> k * b < length ts" for k
    using chunk_index_bound_iff [OF b, of k "length ts"] by (simp add: cnt)
  have full: "length (batches ! j) = b" if "j < k" "k < length batches" for j k
  proof -
    from that have "Suc j \<le> k" by simp
    then have "Suc j * b \<le> k * b" by (rule mult_le_mono1)
    also from that(2) have "k * b < length ts" by (simp add: inb)
    finally have "j * b + b \<le> length ts" by simp
    moreover from that have "j < length batches" by simp
    ultimately show ?thesis by (simp add: nth)
  qed
  have "\<forall>batch\<in>set batches. \<exists>m. embed_batch svc batch = Inr m"
  proof
    fix batch assume "batch \<in> set batches"
    then obtain k where k: "k < length batches" "batch = batches ! k"
      by (metis in_set_conv_nth)
    then have "k * b < length ts" by (simp add: inb)
    with assms(4) k nth [of k] show "\<exists>m. embed_batch svc batch = Inr m"
      unfolding b_def by simp
  qed
  from all_succeed [OF this] obtain ms where ms: "map (embed_batch svc) batches = map Inr ms" ..
  note rr = rows_of_results [OF assms(3) ms]
  from assms(2) have "0 < length batches" by (simp add: inb)
  with rr(1) have msne: "ms \<noteq> []" by auto
  have vs: "vstack ms = Inr (concat ms)" by (rule vstack_uniform [OF msne rr(3)])
  have sl: "sync_loop svc batches = Inr ms" using ms by (simp add: sync_loop_Inr_iff)
  have lv: "length (concat ms) = length ts" using rr(4) cc by simp
  have pos: "embed_batch svc (take b (drop (k * b) ts)) =
      Inr (take (length (take b (drop (k * b) ts))) (drop (k * b) (concat ms)))"
    if "k * b < length ts" for k
  proof -
    from that have k: "k < length batches" by (simp add: inb)
    with rr(2) have e: "embed_batch svc (batches ! k) = Inr (ms ! k)"
      "length (ms ! k) = length (batches ! k)" by simp_all
    have "\<forall>j<k. length (ms ! j) = b"
    proof (intro allI impI)
      fix j assume "j < k"
      with k rr(2) full [of j k] show "length (ms ! j) = b" by simp
    qed
    moreover from k rr(1) have "k < length ms" by simp
    ultimately have "take (length (ms ! k)) (drop (k * b) (concat ms)) = ms ! k"
      by (rule take_drop_concat_uniform)
    with e nth [OF k] show ?thesis by simp
  qed
  from mb sl vs lv rr(3) pos show ?thesis unfolding b_def [symmetric] by blast
qed

section \<open>The concrete service keeps the contract\<close>

lemma demo_contract: "runtime_contract demo_svc 2"
  unfolding runtime_contract_def
proof (intro allI impI)
  fix batch encoded hidden
  assume t: "tokenizer demo_svc batch (max_length demo_svc) = Inr encoded"
    and h: "model demo_svc encoded = Inr hidden"
  define cut where "cut = map (take (nat 512 - 2)) batch"
  define S where "S = foldr max (map (\<lambda>t. length t + 2) cut) 0"
  from t have ids: "input_ids encoded =
      map (\<lambda>t. 101 # map (\<lambda>c. int (of_char c)) t @ 102 # replicate (S - (length t + 2)) 0) cut"
    and am: "attention_mask encoded =
      map (\<lambda>t. replicate (length t + 2) 1 @ replicate (S - (length t + 2)) 0) cut"
    by (auto simp: demo_svc_def demo_tokenizer_def Let_def cut_def S_def)
  from h have hid: "hidden =
      map (\<lambda>ids. map (\<lambda>x. if x = 0 then [7, 7]
                             else if even (sum_list ids) then [4, 3] else [3, 4]) ids)
        (input_ids encoded)"
    by (auto simp: demo_svc_def demo_model_def)
  have len: "length hidden = length batch" by (simp add: hid ids cut_def)
  have "well_shaped 2 hidden (attention_mask encoded)"
    unfolding well_shaped_def list_all2_conv_all_nth
  proof (intro conjI allI impI)
    show "length hidden = length (attention_mask encoded)" by (simp add: hid ids am)
  next
    fix k assume "k < length hidden"
    then have k: "k < length cut" by (simp add: hid ids)
    then show "length (hidden ! k) = length (attention_mask encoded ! k)"
      by (simp add: hid ids am)
    from k show "hidden ! k \<noteq> []"
      by (simp add: hid ids)
    from k show "list_all (\<lambda>tok. length tok = 2) (hidden ! k)"
      by (auto simp: hid ids list_all_iff)
  qed
  with len show "length hidden = length batch \<and> well_shaped 2 hidden (attention_mask encoded)"
    by simp
qed

lemma demo_total: "\<exists>m. embed_batch demo_svc batch = Inr m"
  by (simp add: embed_batch_def demo_svc_def demo_tokenizer_def demo_model_def Let_def)

lemma demo_abc:
  "embed_sync demo_svc (StrList [''a'', ''b'', ''c'']) =
     Inr (PList [PList [PFloat (4 / 5), PFloat (3 / 5)], PList [PFloat (3 / 5), PFloat (4 / 5)], PList [PFloat (4 / 5), PFloat (3 / 5)]])"
  "embed_async [1, 0] demo_svc (StrList [''a'', ''b'', ''c'']) =
     Inr (PList [PList [PFloat (4 / 5), PFloat (3 / 5)], PList [PFloat (3 / 5), PFloat (4 / 5)], PList [PFloat (4 / 5), PFloat (3 / 5)]])"
proof -
  have b1: "embed_batch demo_svc [''a'', ''b''] = Inr [[4 / 5, 3 / 5], [3 / 5, 4 / 5]]"
    by (simp add: demo_defs pooling_defs)
  have b2: "embed_batch demo_svc [''c''] = Inr [[4 / 5, 3 / 5]]"
    by (simp add: demo_defs pooling_defs)
  show "embed_sync demo_svc (StrList [''a'', ''b'', ''c'']) =
     Inr (PList [PList [PFloat (4 / 5), PFloat (3 / 5)], PList [PFloat (3 / 5), PFloat (4 / 5)], PList [PFloat (4 / 5), PFloat (3 / 5)]])"
    by (simp add: embed_sync_def make_batches_def py_range.simps b1 b2 finish_def vstack_def
        tolist_def demo_batch_size)
  show "embed_async [1, 0] demo_svc (StrList [''a'', ''b'', ''c'']) =
     Inr (PList [PList [PFloat (4 / 5), PFloat (3 / 5)], PList [PFloat (3 / 5), PFloat (4 / 5)], PList [PFloat (4 / 5), PFloat (3 / 5)]])"
    by (simp add: embed_async_def gather_def failure_at_def make_batches_def py_range.simps b1 b2
        finish_def vstack_def tolist_def demo_batch_size)
qed

lemma demo_a:
  "embed_sync demo_svc (Str ''a'') = Inr (PList [PFloat (4 / 5), PFloat (3 / 5)])"
  "embed_async [0] demo_svc (Str ''a'') = Inr (PList [PFloat (4 / 5), PFloat (3 / 5)])"
proof -
  have b: "embed_batch demo_svc [''a''] = Inr [[4 / 5, 3 / 5]]"
    by (simp add: demo_defs pooling_defs)
  show "embed_sync demo_svc (Str ''a'') = Inr (PList [PFloat (4 / 5), PFloat (3 / 5)])"
    by (simp add: embed_sync_def make_batches_def py_range.simps b finish_def vstack_def
        tolist_def demo_batch_size)
  show "embed_async [0] demo_svc (Str ''a'') = Inr (PList [PFloat (4 / 5), PFloat (3 / 5)])"
    by (simp add: embed_async_def make_batches_def py_range.simps b finish_def vstack_def
        tolist_def gather_def failure_at_def demo_batch_size)
qed

lemma demo_returns:
  "\<exists>enc hidden. tokenizer demo_svc batch (max_length demo_svc) = Inr enc \<and>
     model demo_svc enc = Inr hidden"
  by (simp add: demo_svc_def demo_tokenizer_def demo_model_def Let_def)



section \<open>The two entry points agree\<close>

text \<open>
  C5. For every input and every completion order of the chunk tasks, \<^verbatim>\<open>embed_async\<close>
  returns a result exactly when \<^verbatim>\<open>embed_sync\<close> does, and then the same one (same shape,
  same vectors). When both fail, the exception that \<^verbatim>\<open>embed_async\<close> propagates is the
  one of the failed task that completed first, which need not be the one of the first
  failing chunk that \<^verbatim>\<open>embed_sync\<close> raises.
\<close>

theorem embed_async_eq_embed_sync:
  "returned (embed_async completion svc q) = returned (embed_sync svc q)"
proof -
  obtain ts single_input where q: "as_list q = (ts, single_input)" by (cases "as_list q")
  show ?thesis
  proof (cases "make_batches (batch_size svc) ts")
    case (Inl e)
    with q show ?thesis by (simp add: embed_async_def embed_sync_def)
  next
    case (Inr batches)
    have "returned (gather completion (map (embed_batch svc) batches)) =
          returned (sync_loop svc batches)"
      by (simp add: returned_gather collect_sync_loop)
    from returned_bind [OF this, of "finish single_input"] q Inr show ?thesis
      by (simp add: embed_async_def embed_sync_def)
  qed
qed

section \<open>The empty list\<close>

text \<open>
  C7, as the claim states it, fails: on the concrete service an empty list of texts makes
  both entry points raise \<^verbatim>\<open>ValueError\<close> inside the core (no chunk is created and
  \<^verbatim>\<open>np.vstack\<close> refuses an empty sequence).
\<close>

theorem empty_list_fails_in_core_counterexample:
  "embed_sync demo_svc (StrList []) = Inl ValueError \<and>
   embed_async [] demo_svc (StrList []) = Inl ValueError"
  by (simp add: embed_sync_def embed_async_def demo_svc_def make_batches_def py_range.simps
      gather_def finish_def vstack_def)

text \<open>
  C7, amended. For every service, passing an empty list of texts to \<^verbatim>\<open>embed_sync\<close> or
  \<^verbatim>\<open>embed_async\<close> fails inside the core with \<^verbatim>\<open>ValueError\<close>. The route
  \<^verbatim>\<open>/embed/batch\<close> rejects an empty list with status 400 before it calls the core.
\<close>

theorem embed_empty_list_fails:
  "embed_sync svc (StrList []) = Inl ValueError \<and>
   embed_async completion svc (StrList []) = Inl ValueError \<and>
   route_embed_batch completion (Some svc) [] = Inl (HTTPException 400 Empty_query_list)"
proof (cases "batch_size svc = 0")
  case True
  then show ?thesis
    by (simp add: embed_sync_def embed_async_def make_batches_def route_embed_batch_def)
next
  case False
  then show ?thesis
    by (simp add: embed_sync_def embed_async_def make_batches_Nil gather_Nil finish_def
        vstack_def route_embed_batch_def)
qed

section \<open>A failing chunk\<close>

text \<open>
  C8. If inference raises for any chunk of a request, \<^verbatim>\<open>embed_async\<close> fails as a whole,
  for every completion order: it returns no result, also not for the chunks that
  completed, and the one exception it propagates is the exception of a chunk of the
  request. Every chunk is submitted once (the tasks are the image of the chunks under
  \<open>embed_batch\<close>), so a failed chunk is not tried again.
\<close>

theorem chunk_failure_fails_whole_call:
  assumes "make_batches (batch_size svc) (fst (as_list q)) = Inr batches"
    and "batch \<in> set batches"
    and "embed_batch svc batch = Inl e"
  shows "\<exists>e' failed. embed_async completion svc q = Inl e' \<and> failed \<in> set batches \<and>
           embed_batch svc failed = Inl e'"
proof -
  let ?tasks = "map (embed_batch svc) batches"
  from assms(2) obtain i where i: "i < length batches" "batches ! i = batch"
    by (auto simp: in_set_conv_nth)
  with assms(3) have "i < length ?tasks" "?tasks ! i = Inl e" by simp_all
  from gather_fails [OF this] obtain e' where g: "gather completion ?tasks = Inl e'" ..
  from gather_failure [OF g] obtain j where j: "j < length batches" "embed_batch svc (batches ! j) = Inl e'"
    by auto
  obtain ts single_input where q: "as_list q = (ts, single_input)" by (cases "as_list q")
  with assms(1) g have "embed_async completion svc q = Inl e'"
    by (simp add: embed_async_def)
  moreover from j have "batches ! j \<in> set batches" by simp
  ultimately show ?thesis using j by blast
qed

theorem chunk_failure_fails_whole_call_witness:
  "make_batches (batch_size flaky_svc) (fst (as_list (StrList [''a'', ''b'', ''c'']))) =
     Inr [[''a'', ''b''], [''c'']] \<and>
   [''c''] \<in> set [[''a'', ''b''], [''c'']] \<and>
   embed_batch flaky_svc [''a'', ''b''] = Inr [[4 / 5, 3 / 5], [3 / 5, 4 / 5]] \<and>
   embed_batch flaky_svc [''c''] = Inl (Raised ''out of memory'') \<and>
   (\<exists>e' failed. embed_async [0, 1] flaky_svc (StrList [''a'', ''b'', ''c'']) = Inl e' \<and>
      failed \<in> set [[''a'', ''b''], [''c'']] \<and> embed_batch flaky_svc failed = Inl e')"
proof -
  have h1: "make_batches (batch_size flaky_svc) (fst (as_list (StrList [''a'', ''b'', ''c'']))) =
     Inr [[''a'', ''b''], [''c'']]"
    by (simp add: demo_defs make_batches_def py_range.simps)
  have h2: "[''c''] \<in> set [[''a'', ''b''], [''c'']]" by simp
  have h3: "embed_batch flaky_svc [''c''] = Inl (Raised ''out of memory'')"
    by (simp add: demo_defs embed_batch_def)
  have h4: "embed_batch flaky_svc [''a'', ''b''] = Inr [[4 / 5, 3 / 5], [3 / 5, 4 / 5]]"
    by (simp add: demo_defs pooling_defs)
  from chunk_failure_fails_whole_call [OF h1 h2 h3, of "[0, 1]"] h1 h2 h3 h4
  show ?thesis by blast
qed

section \<open>A single string and a list of one string\<close>

text \<open>
  C4. \<^verbatim>\<open>embed_sync\<close> on a single string returns \<open>v\<close> exactly when \<^verbatim>\<open>embed_sync\<close> on
  the one-element list of that string returns a list whose first element is \<open>v\<close>; the
  same holds for \<^verbatim>\<open>embed_async\<close> under every completion order; and what is returned for
  a single string is a flat list of floats, not a list of vectors.
\<close>

theorem single_text_consistency:
  "(embed_sync svc (Str t) = Inr v \<longleftrightarrow>
      (\<exists>rest. embed_sync svc (StrList [t]) = Inr (PList (v # rest)))) \<and>
   (embed_async completion svc (Str t) = Inr v \<longleftrightarrow>
      (\<exists>rest. embed_async completion svc (StrList [t]) = Inr (PList (v # rest)))) \<and>
   (embed_sync svc (Str t) = Inr v \<or> embed_async completion svc (Str t) = Inr v \<longrightarrow>
      (\<exists>xs. v = PList (map PFloat xs)))"
proof (intro conjI impI)
  show "embed_sync svc (Str t) = Inr v \<longleftrightarrow>
      (\<exists>rest. embed_sync svc (StrList [t]) = Inr (PList (v # rest)))"
    by (auto simp: embed_sync_def finish_single split: sum.splits)
  show "embed_async completion svc (Str t) = Inr v \<longleftrightarrow>
      (\<exists>rest. embed_async completion svc (StrList [t]) = Inr (PList (v # rest)))"
    by (auto simp: embed_async_def finish_single split: sum.splits)
  assume "embed_sync svc (Str t) = Inr v \<or> embed_async completion svc (Str t) = Inr v"
  then show "\<exists>xs. v = PList (map PFloat xs)"
    by (auto simp: embed_sync_def embed_async_def split: sum.splits dest: finish_single_vector)
qed

theorem single_text_consistency_witness:
  "embed_sync demo_svc (Str ''a'') = Inr (PList [PFloat (4 / 5), PFloat (3 / 5)]) \<and>
   (\<exists>rest. embed_sync demo_svc (StrList [''a'']) = Inr (PList (PList [PFloat (4 / 5), PFloat (3 / 5)] # rest))) \<and>
   embed_async [0] demo_svc (Str ''a'') = Inr (PList [PFloat (4 / 5), PFloat (3 / 5)]) \<and>
   (\<exists>rest. embed_async [0] demo_svc (StrList [''a'']) = Inr (PList (PList [PFloat (4 / 5), PFloat (3 / 5)] # rest)))"
proof -
  have b: "embed_batch demo_svc [''a''] = Inr [[4 / 5, 3 / 5]]"
    by (simp add: demo_defs pooling_defs)
  have bs: "batch_size demo_svc = 2" by (simp add: demo_svc_def)
  have s: "embed_sync demo_svc (Str ''a'') = Inr (PList [PFloat (4 / 5), PFloat (3 / 5)])"
    by (simp add: embed_sync_def make_batches_def py_range.simps b finish_def vstack_def
        tolist_def bs)
  have a: "embed_async [0] demo_svc (Str ''a'') = Inr (PList [PFloat (4 / 5), PFloat (3 / 5)])"
    by (simp add: embed_async_def make_batches_def py_range.simps b finish_def vstack_def
        tolist_def gather_def failure_at_def bs)
  from single_text_consistency [of demo_svc "''a''" "PList [PFloat (4 / 5), PFloat (3 / 5)]" "[0]"] s a
  show ?thesis by blast
qed

section \<open>Pooling and the rescaling\<close>

text \<open>
  C3, as the claim states it, fails in its last clause: when every position of a text is
  padding, the masked sum is the zero vector, the floored division keeps it zero, and
  the normalisation (a division by \<open>max (\<parallel>v\<parallel>\<^sub>2) 1e-12\<close>) returns the zero
  vector, whose norm is not 1.
\<close>

theorem pooling_zero_vector_counterexample:
  "mean_pooling [[[1, 0]]] [[0]] = [[0, 0]] \<and>
   masked_mean_spec [[1, 0]] [0] = [0, 0] \<and>
   normalize_l2 (mean_pooling [[[1, 0]]] [[0]]) = [[0, 0]] \<and>
   l2_norm [0, 0] \<noteq> 1"
  by (simp add: pooling_defs masked_mean_spec_def)

text \<open>
  C3, amended. When the hidden states and the attention mask have the shapes of the
  library and the mask is 0 or 1 everywhere, \<^verbatim>\<open>_embed_batch\<close> returns, for each text, the
  masked mean as the specification words it (products of the per-token vectors with
  their mask values, summed over the sequence, divided by the number of real tokens
  floored at \<open>1e-9\<close>), divided by the maximum of its L2 norm and \<open>1e-12\<close>. The result has
  L2 norm 1 when the norm of the mean is at least \<open>1e-12\<close>, and \<open>1e12\<close> times the norm of
  the mean otherwise.
\<close>

theorem pooling_then_normalisation:
  assumes "tokenizer svc batch (max_length svc) = Inr encoded"
    and "model svc encoded = Inr hidden"
    and "well_shaped H hidden (attention_mask encoded)"
    and "binary_mask (attention_mask encoded)"
  shows "embed_batch svc batch =
           Inr (map normalize_row (map2 masked_mean_spec hidden (attention_mask encoded))) \<and>
         (\<forall>p\<in>set (map2 masked_mean_spec hidden (attention_mask encoded)).
            (1 / 10 ^ 12 \<le> l2_norm p \<longrightarrow> l2_norm (normalize_row p) = 1) \<and>
            (l2_norm p < 1 / 10 ^ 12 \<longrightarrow> l2_norm (normalize_row p) = 10 ^ 12 * l2_norm p))"
proof -
  from mean_pooling_spec [OF assms(3,4)] assms(1,2)
  have "embed_batch svc batch =
           Inr (map normalize_row (map2 masked_mean_spec hidden (attention_mask encoded)))"
    by (simp add: embed_batch_def normalize_l2_def)
  then show ?thesis
    using normalize_row_unit normalize_row_tiny by blast
qed

theorem pooling_then_normalisation_witness:
  "tokenizer demo_svc [''a'', ''bc''] (max_length demo_svc) =
     Inr \<lparr>input_ids = [[101, 97, 102, 0], [101, 98, 99, 102]],
          attention_mask = [[1, 1, 1, 0], [1, 1, 1, 1]]\<rparr> \<and>
   model demo_svc \<lparr>input_ids = [[101, 97, 102, 0], [101, 98, 99, 102]],
                   attention_mask = [[1, 1, 1, 0], [1, 1, 1, 1]]\<rparr> =
     Inr [[[4, 3], [4, 3], [4, 3], [7, 7]], [[4, 3], [4, 3], [4, 3], [4, 3]]] \<and>
   well_shaped 2 [[[4, 3], [4, 3], [4, 3], [7, 7]], [[4, 3], [4, 3], [4, 3], [4, 3]]]
     [[1, 1, 1, 0], [1, 1, 1, 1]] \<and>
   binary_mask [[1, 1, 1, 0], [1, 1, 1, 1]] \<and>
   embed_batch demo_svc [''a'', ''bc''] =
     Inr (map normalize_row
       (map2 masked_mean_spec [[[4, 3], [4, 3], [4, 3], [7, 7]], [[4, 3], [4, 3], [4, 3], [4, 3]]]
          [[1, 1, 1, 0], [1, 1, 1, 1]])) \<and>
   embed_batch demo_svc [''a'', ''bc''] = Inr [[4 / 5, 3 / 5], [4 / 5, 3 / 5]]"
proof -
  let ?enc = "\<lparr>input_ids = [[101, 97, 102, 0], [101, 98, 99, 102]],
               attention_mask = [[1, 1, 1, 0], [1, 1, 1, 1]]\<rparr>"
  let ?hidden = "[[[4, 3], [4, 3], [4, 3], [7, 7]], [[4, 3], [4, 3], [4, 3], [4, 3 :: real]]]"
  have h1: "tokenizer demo_svc [''a'', ''bc''] (max_length demo_svc) = Inr ?enc"
    by (simp add: demo_defs)
  have h2: "model demo_svc ?enc = Inr ?hidden"
    by (simp add: demo_defs)
  have w: "well_shaped 2 ?hidden [[1, 1, 1, 0], [1, 1, 1, 1]]"
    by (simp add: well_shaped_def)
  have m: "binary_mask [[1, 1, 1, 0], [1, 1, 1, 1]]"
    by (simp add: binary_mask_def)
  have h3: "well_shaped 2 ?hidden (attention_mask ?enc)" using w by simp
  have h4: "binary_mask (attention_mask ?enc)" using m by simp
  have v: "embed_batch demo_svc [''a'', ''bc''] = Inr [[4 / 5, 3 / 5], [4 / 5, 3 / 5]]"
    by (simp add: demo_defs pooling_defs)
  have "embed_batch demo_svc [''a'', ''bc''] =
      Inr (map normalize_row (map2 masked_mean_spec ?hidden (attention_mask ?enc)))"
    by (rule pooling_then_normalisation [OF h1 h2 h3 h4, THEN conjunct1])
  then have e: "embed_batch demo_svc [''a'', ''bc''] =
      Inr (map normalize_row (map2 masked_mean_spec ?hidden [[1, 1, 1, 0], [1, 1, 1, 1]]))"
    by (simp only: encoding.simps)
  from h1 h2 w m e v show ?thesis by (intro conjI)
qed

section \<open>The norm of a returned vector\<close>



section \<open>The empty string\<close>



section \<open>Chunking and the order of the results\<close>

text \<open>
  C2. Let the batch size \<open>B\<close> be positive, the list of \<open>n \<ge> 1\<close> texts be given, and the
  tokenizer and encoder keep the contract of the library and return on every chunk. Then
  the list is cut into \<open>\<lceil>n / B\<rceil>\<close> contiguous chunks, chunk \<open>k\<close> being the texts
  \<open>[k * B, k * B + B)\<close>, non-empty and of at most \<open>B\<close> texts, whose concatenation is the
  list; \<^verbatim>\<open>embed_sync\<close> and \<^verbatim>\<open>embed_async\<close>, under every completion order of the chunk
  tasks, return the same list of \<open>n\<close> vectors; and the vectors at the positions
  \<open>[k * B, k * B + len(chunk k))\<close> are, in the order of the rows, the normalised pooled
  vectors of the hidden states that the encoder returns for chunk \<open>k\<close>.
\<close>

theorem chunked_results_in_order:
  assumes "0 < batch_size svc" and "ts \<noteq> []" and "runtime_contract svc H"
    and "\<forall>k. k * nat (batch_size svc) < length ts \<longrightarrow>
           (\<exists>enc hidden.
              tokenizer svc (take (nat (batch_size svc)) (drop (k * nat (batch_size svc)) ts))
                (max_length svc) = Inr enc \<and>
              model svc enc = Inr hidden)"
  shows "\<exists>batches vs.
      make_batches (batch_size svc) ts = Inr batches \<and>
      int (length batches) = \<lceil>real (length ts) / real_of_int (batch_size svc)\<rceil> \<and>
      concat batches = ts \<and>
      embed_sync svc (StrList ts) = Inr (PList (map (\<lambda>v. PList (map PFloat v)) vs)) \<and>
      embed_async completion svc (StrList ts) = Inr (PList (map (\<lambda>v. PList (map PFloat v)) vs)) \<and>
      length vs = length ts \<and>
      (\<forall>k<length batches.
         batches ! k = take (nat (batch_size svc)) (drop (k * nat (batch_size svc)) ts) \<and>
         batches ! k \<noteq> [] \<and> length (batches ! k) \<le> nat (batch_size svc) \<and>
         (\<exists>enc hidden.
            tokenizer svc (batches ! k) (max_length svc) = Inr enc \<and>
            model svc enc = Inr hidden \<and>
            take (length (batches ! k)) (drop (k * nat (batch_size svc)) vs) =
              map normalize_row (mean_pooling hidden (attention_mask enc))))"
proof -
  define b where "b = nat (batch_size svc)"
  define batches where "batches = map (\<lambda>k. take b (drop (k * b) ts)) [0..<(length ts + b - 1) div b]"
  from assms(1) have b: "0 < b" by (simp add: b_def)
  have mb: "make_batches (batch_size svc) ts = Inr batches"
    using assms(1) b by (simp add: make_batches_def py_range_closed comp_def batches_def b_def)
  have cnt: "length batches = (length ts + b - 1) div b" by (simp add: batches_def)
  have ceil: "int (length batches) = \<lceil>real (length ts) / real_of_int (batch_size svc)\<rceil>"
    using chunk_count_ceiling [OF b, of "length ts"] assms(1) by (simp add: cnt b_def)
  have cc: "concat batches = ts" unfolding batches_def by (rule concat_chunks [OF b])
  have nth: "batches ! k = take b (drop (k * b) ts)" if "k < length batches" for k
    using that by (simp add: batches_def)
  have inb: "k * b < length ts" if "k < length batches" for k
    using that chunk_index_bound_iff [OF b, of k "length ts"] by (simp add: cnt)
  have ne: "batches ! k \<noteq> []" and le: "length (batches ! k) \<le> b" if "k < length batches" for k
    using that inb [OF that] b by (simp_all add: nth)
  have succ: "\<forall>k. k * nat (batch_size svc) < length ts \<longrightarrow>
           (\<exists>m. embed_batch svc
                  (take (nat (batch_size svc)) (drop (k * nat (batch_size svc)) ts)) = Inr m)"
  proof (intro allI impI)
    fix k assume "k * nat (batch_size svc) < length ts"
    with assms(4) obtain enc hidden where
      "tokenizer svc (take (nat (batch_size svc)) (drop (k * nat (batch_size svc)) ts))
         (max_length svc) = Inr enc" "model svc enc = Inr hidden" by blast
    then show "\<exists>m. embed_batch svc
        (take (nat (batch_size svc)) (drop (k * nat (batch_size svc)) ts)) = Inr m"
      by (simp add: embed_batch_def)
  qed
  from scheduler_core [OF assms(1-3) succ] mb obtain ms where
    sl: "sync_loop svc batches = Inr ms" and
    vs: "vstack ms = Inr (concat ms)" and
    lv: "length (concat ms) = length ts" and
    pos: "\<And>k. k * b < length ts \<Longrightarrow>
           embed_batch svc (take b (drop (k * b) ts)) =
             Inr (take (length (take b (drop (k * b) ts))) (drop (k * b) (concat ms)))"
    unfolding b_def by auto
  have fin: "finish False ms = Inr (PList (map (\<lambda>v. PList (map PFloat v)) (concat ms)))"
    by (simp add: finish_def vs tolist_def)
  from sl have ga: "gather completion (map (embed_batch svc) batches) = Inr ms"
    by (simp only: gather_Inr_iff)
  have es: "embed_sync svc (StrList ts) = Inr (PList (map (\<lambda>v. PList (map PFloat v)) (concat ms)))"
    by (simp add: embed_sync_def mb sl fin)
  have ea: "embed_async completion svc (StrList ts) =
      Inr (PList (map (\<lambda>v. PList (map PFloat v)) (concat ms)))"
    by (simp add: embed_async_def mb ga fin)
  have out: "\<exists>enc hidden.
            tokenizer svc (batches ! k) (max_length svc) = Inr enc \<and>
            model svc enc = Inr hidden \<and>
            take (length (batches ! k)) (drop (k * b) (concat ms)) =
              map normalize_row (mean_pooling hidden (attention_mask enc))"
    if "k < length batches" for k
  proof -
    from assms(4) inb [OF that] obtain enc hidden where
      t: "tokenizer svc (take b (drop (k * b) ts)) (max_length svc) = Inr enc"
         "model svc enc = Inr hidden"
      unfolding b_def by blast
    then have "embed_batch svc (take b (drop (k * b) ts)) =
        Inr (map normalize_row (mean_pooling hidden (attention_mask enc)))"
      by (simp add: embed_batch_def normalize_l2_def)
    with pos [OF inb [OF that]] have
      "take (length (take b (drop (k * b) ts))) (drop (k * b) (concat ms)) =
         map normalize_row (mean_pooling hidden (attention_mask enc))" by simp
    with t nth [OF that] show ?thesis by auto
  qed
  from mb ceil cc es ea lv nth ne le out show ?thesis
    unfolding b_def [symmetric] by blast
qed

theorem chunked_results_in_order_witness:
  "0 < batch_size demo_svc \<and> [''a'', ''b'', ''c''] \<noteq> [] \<and> runtime_contract demo_svc 2 \<and>
   embed_sync demo_svc (StrList [''a'', ''b'', ''c'']) =
     Inr (PList [PList [PFloat (4 / 5), PFloat (3 / 5)], PList [PFloat (3 / 5), PFloat (4 / 5)],
                 PList [PFloat (4 / 5), PFloat (3 / 5)]]) \<and>
   embed_async [1, 0] demo_svc (StrList [''a'', ''b'', ''c'']) =
     Inr (PList [PList [PFloat (4 / 5), PFloat (3 / 5)], PList [PFloat (3 / 5), PFloat (4 / 5)],
                 PList [PFloat (4 / 5), PFloat (3 / 5)]]) \<and>
   (\<exists>batches vs.
      make_batches (batch_size demo_svc) [''a'', ''b'', ''c''] = Inr batches \<and>
      int (length batches) =
        \<lceil>real (length [''a'', ''b'', ''c'']) / real_of_int (batch_size demo_svc)\<rceil> \<and>
      concat batches = [''a'', ''b'', ''c''] \<and>
      embed_sync demo_svc (StrList [''a'', ''b'', ''c'']) =
        Inr (PList (map (\<lambda>v. PList (map PFloat v)) vs)) \<and>
      embed_async [1, 0] demo_svc (StrList [''a'', ''b'', ''c'']) =
        Inr (PList (map (\<lambda>v. PList (map PFloat v)) vs)) \<and>
      length vs = length [''a'', ''b'', ''c''] \<and>
      (\<forall>k<length batches.
         batches ! k = take (nat (batch_size demo_svc))
           (drop (k * nat (batch_size demo_svc)) [''a'', ''b'', ''c'']) \<and>
         batches ! k \<noteq> [] \<and> length (batches ! k) \<le> nat (batch_size demo_svc) \<and>
         (\<exists>enc hidden.
            tokenizer demo_svc (batches ! k) (max_length demo_svc) = Inr enc \<and>
            model demo_svc enc = Inr hidden \<and>
            take (length (batches ! k)) (drop (k * nat (batch_size demo_svc)) vs) =
              map normalize_row (mean_pooling hidden (attention_mask enc)))))"
proof -
  have h1: "0 < batch_size demo_svc" by (simp add: demo_batch_size)
  have h2: "[''a'', ''b'', ''c''] \<noteq> []" by simp
  have h4: "\<forall>k. k * nat (batch_size demo_svc) < length [''a'', ''b'', ''c''] \<longrightarrow>
           (\<exists>enc hidden.
              tokenizer demo_svc (take (nat (batch_size demo_svc))
                (drop (k * nat (batch_size demo_svc)) [''a'', ''b'', ''c''])) (max_length demo_svc) =
                Inr enc \<and>
              model demo_svc enc = Inr hidden)"
    using demo_returns by blast
  have b1: "embed_batch demo_svc [''a'', ''b''] = Inr [[4 / 5, 3 / 5], [3 / 5, 4 / 5]]"
    by (simp add: demo_defs pooling_defs)
  have b2: "embed_batch demo_svc [''c''] = Inr [[4 / 5, 3 / 5]]"
    by (simp add: demo_defs pooling_defs)
  have es: "embed_sync demo_svc (StrList [''a'', ''b'', ''c'']) =
     Inr (PList [PList [PFloat (4 / 5), PFloat (3 / 5)], PList [PFloat (3 / 5), PFloat (4 / 5)],
                 PList [PFloat (4 / 5), PFloat (3 / 5)]])"
    by (simp add: embed_sync_def make_batches_def py_range.simps b1 b2 finish_def vstack_def
        tolist_def demo_batch_size)
  have ea: "embed_async [1, 0] demo_svc (StrList [''a'', ''b'', ''c'']) =
     Inr (PList [PList [PFloat (4 / 5), PFloat (3 / 5)], PList [PFloat (3 / 5), PFloat (4 / 5)],
                 PList [PFloat (4 / 5), PFloat (3 / 5)]])"
    by (simp add: embed_async_def gather_def failure_at_def make_batches_def py_range.simps b1 b2
        finish_def vstack_def tolist_def demo_batch_size)
  from chunked_results_in_order [OF h1 h2 demo_contract h4, of "[1, 0]"] h1 h2 demo_contract
    es ea
  show ?thesis by (intro conjI)
qed

section \<open>The embedding dimension\<close>

text \<open>
  C9. \<^verbatim>\<open>get_embedding_dimension\<close> is a function of the service alone: it embeds the
  probe string \<^verbatim>\<open>"test"\<close> with \<^verbatim>\<open>embed_sync\<close> and takes the length of the vector. When
  the tokenizer and encoder keep the contract of the library with hidden size \<open>H\<close>, the
  batch size is positive and inference succeeds on the probe, it returns \<open>H\<close>, and every
  vector returned by \<^verbatim>\<open>embed_sync\<close> or \<^verbatim>\<open>embed_async\<close>, for any input and completion
  order, has length \<open>H\<close>.
\<close>

theorem embedding_dimension_is_vector_length:
  assumes "runtime_contract svc H" and "0 < batch_size svc"
    and "embed_batch svc [''test''] = Inr m"
  shows "get_embedding_dimension svc = Inr H \<and>
         (\<forall>q r x. (embed_sync svc q = Inr r \<or> embed_async completion svc q = Inr r) \<longrightarrow>
            x \<in> set (vectors_of q r) \<longrightarrow> py_len x = Inr H)"
proof (intro conjI allI impI)
  from embed_batch_shape [OF assms(1,3)] have "length m = 1" "\<forall>row\<in>set m. length row = H"
    by simp_all
  then obtain row where m: "m = [row]" "length row = H"
    by (cases m) auto
  have "sync_loop svc [[''test'']] = Inr [[row]]" using assms(3) m by simp
  moreover have "finish True [[row]] = Inr (PList (map PFloat row))"
    by (simp add: finish_def vstack_def tolist_def)
  ultimately have "embed_sync svc (Str ''test'') = Inr (PList (map PFloat row))"
    using assms(2) by (simp add: embed_sync_def make_batches_single)
  with m(2) show "get_embedding_dimension svc = Inr H"
    by (simp add: get_embedding_dimension_def)
next
  fix q r x
  assume e: "embed_sync svc q = Inr r \<or> embed_async completion svc q = Inr r"
    and x: "x \<in> set (vectors_of q r)"
  from embed_Inr [OF e] obtain batches ms where
    m: "map (embed_batch svc) batches = map Inr ms" and
    f: "finish (snd (as_list q)) ms = Inr r" by blast
  from vectors_of_rows [OF f x] obtain row where
    "row \<in> set (concat ms)" "x = PList (map PFloat row)" by blast
  with rows_of_results(3) [OF assms(1) m] have "length row = H" "x = PList (map PFloat row)"
    by blast+
  then show "py_len x = Inr H" by simp
qed

theorem embedding_dimension_is_vector_length_witness:
  "runtime_contract demo_svc 2 \<and> 0 < batch_size demo_svc \<and>
   (\<exists>m. embed_batch demo_svc [''test''] = Inr m) \<and>
   get_embedding_dimension demo_svc = Inr 2 \<and>
   embed_sync demo_svc (StrList [''a'', ''b'', ''c'']) =
     Inr (PList [PList [PFloat (4 / 5), PFloat (3 / 5)], PList [PFloat (3 / 5), PFloat (4 / 5)], PList [PFloat (4 / 5), PFloat (3 / 5)]]) \<and>
   py_len (PList [PFloat (3 / 5), PFloat (4 / 5)]) = Inr 2"
proof -
  have h2: "0 < batch_size demo_svc" by (simp add: demo_batch_size)
  from demo_total obtain m where h3: "embed_batch demo_svc [''test''] = Inr m" ..
  have x: "PList [PFloat (3 / 5), PFloat (4 / 5)] \<in> set (vectors_of (StrList [''a'', ''b'', ''c''])
     (PList [PList [PFloat (4 / 5), PFloat (3 / 5)], PList [PFloat (3 / 5), PFloat (4 / 5)], PList [PFloat (4 / 5), PFloat (3 / 5)]]))"
    by simp
  from embedding_dimension_is_vector_length [OF demo_contract h2 h3, of "[1, 0]"]
  have "get_embedding_dimension demo_svc = Inr 2"
    and "\<And>q r x. embed_sync demo_svc q = Inr r \<Longrightarrow> x \<in> set (vectors_of q r) \<Longrightarrow> py_len x = Inr 2"
    by blast+
  from this(1) this(2) [OF demo_abc(1) x] demo_contract h2 h3 demo_abc(1) show ?thesis by blast
qed

section \<open>The route /embed\<close>

text \<open>
  C10. Let the tokenizer and encoder keep the contract of the library with a positive
  hidden size, and let the core return a result for the request. For a non-empty list of
  \<open>n\<close> strings the first element of the result is a list, and the response carries the
  result, \<open>count = n\<close> and \<open>dimension\<close> the length of the first vector. For a single
  string the result is a flat vector, whose first element is a float, and the response
  carries it with \<open>count = 1\<close> and \<open>dimension\<close> its length.
\<close>

theorem route_embed_count_and_dimension:
  assumes "runtime_contract svc H" and "0 < H"
  shows "(ts \<noteq> [] \<longrightarrow> embed_async completion svc (StrList ts) = Inr r \<longrightarrow>
            (\<exists>first rest. r = PList (PList first # rest) \<and>
               route_embed completion (Some svc) (StrList ts) =
                 Inr \<lparr>embeddings = r, dimension = length first, count = length ts\<rparr>)) \<and>
         (embed_async completion svc (Str s) = Inr r' \<longrightarrow>
            (\<exists>xs. r' = PList (map PFloat xs) \<and>
               route_embed completion (Some svc) (Str s) =
                 Inr \<lparr>embeddings = r', dimension = length xs, count = 1\<rparr>))"
proof (intro conjI impI)
  assume ne: "ts \<noteq> []" and e: "embed_async completion svc (StrList ts) = Inr r"
  from embed_list_result [OF assms(1) disjI2 [OF e]] obtain vs where
    vs: "r = PList (tolist vs)" "length vs = length ts" by blast
  with ne obtain v rest where v: "vs = v # rest" by (cases vs) auto
  with vs have r: "r = PList (PList (map PFloat v) # tolist rest)" by (simp add: tolist_def)
  from vs(2) v have "length (PList (map PFloat v) # tolist rest) = length ts"
    by (simp add: tolist_def)
  with e r have "route_embed completion (Some svc) (StrList ts) =
      Inr \<lparr>embeddings = r, dimension = length (map PFloat v), count = length ts\<rparr>"
    by (simp add: route_embed_def)
  with r show "\<exists>first rest. r = PList (PList first # rest) \<and>
               route_embed completion (Some svc) (StrList ts) =
                 Inr \<lparr>embeddings = r, dimension = length first, count = length ts\<rparr>" by blast
next
  assume e: "embed_async completion svc (Str s) = Inr r'"
  from embed_single_result [OF assms(1) disjI2 [OF e]] obtain xs where
    xs: "r' = PList (map PFloat xs)" "length xs = H" by blast
  with assms(2) obtain y ys where "xs = y # ys" by (cases xs) auto
  with e xs(1) have "route_embed completion (Some svc) (Str s) =
      Inr \<lparr>embeddings = r', dimension = length xs, count = 1\<rparr>"
    by (simp add: route_embed_def)
  with xs(1) show "\<exists>xs. r' = PList (map PFloat xs) \<and>
               route_embed completion (Some svc) (Str s) =
                 Inr \<lparr>embeddings = r', dimension = length xs, count = 1\<rparr>" by blast
qed

theorem route_embed_count_and_dimension_witness:
  "runtime_contract demo_svc 2 \<and>
   embed_async [1, 0] demo_svc (StrList [''a'', ''b'', ''c'']) =
     Inr (PList [PList [PFloat (4 / 5), PFloat (3 / 5)], PList [PFloat (3 / 5), PFloat (4 / 5)], PList [PFloat (4 / 5), PFloat (3 / 5)]]) \<and>
   embed_async [0] demo_svc (Str ''a'') = Inr (PList [PFloat (4 / 5), PFloat (3 / 5)]) \<and>
   route_embed [1, 0] (Some demo_svc) (StrList [''a'', ''b'', ''c'']) =
     Inr \<lparr>embeddings =
            PList [PList [PFloat (4 / 5), PFloat (3 / 5)], PList [PFloat (3 / 5), PFloat (4 / 5)], PList [PFloat (4 / 5), PFloat (3 / 5)]],
          dimension = 2, count = 3\<rparr> \<and>
   route_embed [0] (Some demo_svc) (Str ''a'') =
     Inr \<lparr>embeddings = PList [PFloat (4 / 5), PFloat (3 / 5)], dimension = 2, count = 1\<rparr>"
proof -
  let ?r = "PList [PList [PFloat (4 / 5), PFloat (3 / 5)], PList [PFloat (3 / 5), PFloat (4 / 5)], PList [PFloat (4 / 5), PFloat (3 / 5)]]"
  have h2: "(0::nat) < 2" by simp
  have ne: "[''a'', ''b'', ''c''] \<noteq> []" by simp
  have "\<exists>first rest. ?r = PList (PList first # rest) \<and>
       route_embed [1, 0] (Some demo_svc) (StrList [''a'', ''b'', ''c'']) =
         Inr \<lparr>embeddings = ?r, dimension = length first, count = length [''a'', ''b'', ''c'']\<rparr>"
    by (rule route_embed_count_and_dimension [OF demo_contract h2, THEN conjunct1, rule_format,
          OF ne demo_abc(2)])
  then obtain first rest where fr: "?r = PList (PList first # rest)"
    "route_embed [1, 0] (Some demo_svc) (StrList [''a'', ''b'', ''c'']) =
       Inr \<lparr>embeddings = ?r, dimension = length first, count = length [''a'', ''b'', ''c'']\<rparr>"
    by (elim exE conjE)
  from fr(1) have "first = [PFloat (4 / 5), PFloat (3 / 5)]" by simp
  then have "length first = 2" by simp
  with fr(2) have l: "route_embed [1, 0] (Some demo_svc) (StrList [''a'', ''b'', ''c'']) =
     Inr \<lparr>embeddings = ?r, dimension = 2, count = 3\<rparr>" by simp
  have "\<exists>xs. PList [PFloat (4 / 5), PFloat (3 / 5)] = PList (map PFloat xs) \<and>
    route_embed [0] (Some demo_svc) (Str ''a'') =
       Inr \<lparr>embeddings = PList [PFloat (4 / 5), PFloat (3 / 5)], dimension = length xs, count = 1\<rparr>"
    by (rule route_embed_count_and_dimension [OF demo_contract h2, THEN conjunct2, rule_format,
          OF demo_a(2)])
  then obtain xs where xs: "PList [PFloat (4 / 5), PFloat (3 / 5)] = PList (map PFloat xs)"
    "route_embed [0] (Some demo_svc) (Str ''a'') =
       Inr \<lparr>embeddings = PList [PFloat (4 / 5), PFloat (3 / 5)], dimension = length xs, count = 1\<rparr>"
    by (elim exE conjE)
  from xs(1) have "[PFloat (4 / 5), PFloat (3 / 5)] = map PFloat xs" by (simp only: pyval.inject)
  from arg_cong [OF this, of length] have "length xs = 2" by simp
  with xs(2) have s: "route_embed [0] (Some demo_svc) (Str ''a'') =
     Inr \<lparr>embeddings = PList [PFloat (4 / 5), PFloat (3 / 5)], dimension = 2, count = 1\<rparr>" by simp
  from l s demo_contract demo_abc(2) demo_a(2) show ?thesis by (intro conjI)
qed

end
